theory Spec2Isabelle
  imports Main "HOL-Library.Product_Lexorder" "HOL-Library.AList"
begin

section \<open>Self-update client: a shallow embedding of updater.py\<close>

text \<open>
  Python strings are modelled as \<^typ>\<open>string\<close>: a character is a code point below 256.
  In that range the regular-expression class \<open>\d\<close> is exactly the ten ASCII digits, and
  the class \<open>[A-Fa-f0-9]\<close> is the twenty-two ASCII hexadecimal digits.
  Python's limit on the length of a decimal literal given to \<open>int\<close> is not modelled.
\<close>

subsection \<open>Version comparator\<close>

definition newline :: char where
  "newline = CHR 0x0A"

definition is_digit :: "char \<Rightarrow> bool" where
  "is_digit c = (c \<in> set ''0123456789'')"

definition digit_val :: "char \<Rightarrow> int" where
  "digit_val c = int (of_char c) - 48"

text \<open>\<open>int(m.group(i))\<close> on a non-empty run of digits.\<close>

definition py_int :: "string \<Rightarrow> int" where
  "py_int ds = foldl (\<lambda>a c. 10 * a + digit_val c) 0 ds"

text \<open>
  \<open>$\<close> without the MULTILINE flag matches at the end of the string and just before a
  newline that is the last character.
\<close>

definition dollar :: "string \<Rightarrow> bool" where
  "dollar r = (r = [] \<or> r = [newline])"

text \<open>
  The tail \<open>(?:[-+].*)?$\<close> of both patterns, matched against the rest of the string:
  \<open>.\<close> matches everything but a newline, and \<open>.*\<close> is greedy.
\<close>

definition tail_ok :: "string \<Rightarrow> bool" where
  "tail_ok r = (dollar r \<or>
     (case r of [] \<Rightarrow> False
      | c # t \<Rightarrow> (c = CHR ''-'' \<or> c = CHR ''+'') \<and> dollar (dropWhile (\<lambda>x. x \<noteq> newline) t)))"

text \<open>\<open>(\d+)\<close> followed by a literal dot: the digits and what follows the dot.\<close>

definition digits_dot :: "string \<Rightarrow> (string \<times> string) option" where
  "digits_dot s =
     (let ds = takeWhile is_digit s; r = dropWhile is_digit s
      in if ds = [] then None
         else (case r of [] \<Rightarrow> None
               | c # t \<Rightarrow> if c = CHR ''.'' then Some (ds, t) else None))"

text \<open>The last \<open>(\d+)\<close> followed by the tail.\<close>

definition digits_tail :: "string \<Rightarrow> string option" where
  "digits_tail s =
     (let ds = takeWhile is_digit s; r = dropWhile is_digit s
      in if ds = [] \<or> \<not> tail_ok r then None else Some ds)"

text \<open>\<open>re.match(r"^(\d+)\.(\d+)\.(\d+)(?:[-+].*)?$", s)\<close>\<close>

definition match3 :: "string \<Rightarrow> (string \<times> string \<times> string) option" where
  "match3 s =
     (case digits_dot s of None \<Rightarrow> None
      | Some (a, r1) \<Rightarrow>
         (case digits_dot r1 of None \<Rightarrow> None
          | Some (b, r2) \<Rightarrow>
             (case digits_tail r2 of None \<Rightarrow> None
              | Some c \<Rightarrow> Some (a, b, c))))"

text \<open>\<open>re.match(r"^(\d+)\.(\d+)(?:[-+].*)?$", s)\<close>\<close>

definition match2 :: "string \<Rightarrow> (string \<times> string) option" where
  "match2 s =
     (case digits_dot s of None \<Rightarrow> None
      | Some (a, r1) \<Rightarrow>
         (case digits_tail r1 of None \<Rightarrow> None
          | Some b \<Rightarrow> Some (a, b)))"

type_synonym version = "int \<times> int \<times> int"

text \<open>\<open>if s.startswith("v"): s = s[1:]\<close>\<close>

definition strip_v :: "string \<Rightarrow> string" where
  "strip_v s = (case s of [] \<Rightarrow> [] | c # t \<Rightarrow> if c = CHR ''v'' then t else s)"

definition parse_semver :: "string \<Rightarrow> version" where
  "parse_semver s0 =
     (let s = strip_v s0
      in case match3 s of
           Some (a, b, c) \<Rightarrow> (py_int a, py_int b, py_int c)
         | None \<Rightarrow>
            (case match2 s of
               Some (a, b) \<Rightarrow> (py_int a, py_int b, 0)
             | None \<Rightarrow> (- 1, - 1, - 1)))"

text \<open>
  \<open>(pa > pb) - (pa < pb)\<close>: Python compares tuples of equal length lexicographically,
  which is the order of \<^typ>\<open>version\<close> here.
\<close>

definition compare_versions :: "string \<Rightarrow> string \<Rightarrow> int" where
  "compare_versions a b =
     (let pa = parse_semver a; pb = parse_semver b
      in (if pb < pa then 1 else 0) - (if pa < pb then 1 else 0))"

subsection \<open>Integrity verifier\<close>

datatype exn =
    ValueError string
  | FileNotFoundError string
  | OSError string
  | AttributeError string
  | OtherError string

text \<open>\<open>FileNotFoundError\<close> is a subclass of \<open>OSError\<close>.\<close>

fun is_OSError :: "exn \<Rightarrow> bool" where
  "is_OSError (OSError _) = True"
| "is_OSError (FileNotFoundError _) = True"
| "is_OSError _ = False"

definition is_hex :: "char \<Rightarrow> bool" where
  "is_hex c = (c \<in> set ''0123456789abcdefABCDEF'')"

text \<open>\<open>str.lower\<close>, which the code applies to hexadecimal digits only.\<close>

definition lower_char :: "char \<Rightarrow> char" where
  "lower_char c =
     (if c = CHR ''A'' then CHR ''a'' else if c = CHR ''B'' then CHR ''b''
      else if c = CHR ''C'' then CHR ''c'' else if c = CHR ''D'' then CHR ''d''
      else if c = CHR ''E'' then CHR ''e'' else if c = CHR ''F'' then CHR ''f'' else c)"

text \<open>The characters \<open>str.strip()\<close> removes, among the code points below 256.\<close>

definition is_space :: "char \<Rightarrow> bool" where
  "is_space c = (let n = (of_char c :: nat)
                 in (9 \<le> n \<and> n \<le> 13) \<or> (28 \<le> n \<and> n \<le> 32) \<or> n = 133 \<or> n = 160)"

definition py_strip :: "string \<Rightarrow> string" where
  "py_strip s = rev (dropWhile is_space (rev (dropWhile is_space s)))"

text \<open>
  \<open>re.search(r"([A-Fa-f0-9]{64})", txt)\<close>: the leftmost position at which sixty-four
  hexadecimal digits follow one another; group 1 is those sixty-four characters.
\<close>

fun search64 :: "string \<Rightarrow> string option" where
  "search64 [] = None"
| "search64 (c # t) =
     (if 64 \<le> length (c # t) \<and> list_all is_hex (take 64 (c # t))
      then Some (take 64 (c # t)) else search64 t)"

definition mismatch_msg :: "string \<Rightarrow> string \<Rightarrow> string" where
  "mismatch_msg expected actual =
     ''SHA-256 mismatch.'' @ [newline] @ ''  expected='' @ expected @ [newline] @
     ''  actual  ='' @ actual"

text \<open>
  \<open>verify_sha256_from_file\<close>: \<open>txt\<close> is the decoded content of the descriptor at
  \<open>sha_path\<close>, \<open>actual\<close> is what \<open>sha256_file(asset_path)\<close> returns.
\<close>

definition verify_sha256_from_file :: "string \<Rightarrow> string \<Rightarrow> string \<Rightarrow> exn + bool" where
  "verify_sha256_from_file sha_path txt actual =
     (case search64 (py_strip txt) of
        None \<Rightarrow> Inl (ValueError (''Invalid sha256 file format: '' @ sha_path))
      | Some g \<Rightarrow>
         (let expected = map lower_char g
          in if actual \<noteq> expected then Inl (ValueError (mismatch_msg expected actual))
             else Inr True))"

subsection \<open>Release selection\<close>

record asset =
  name :: string
  browser_download_url :: string

record release =
  tag_name :: "string option"
  draft :: bool
  prerelease :: bool
  assets :: "asset list"

text \<open>\<open>r.get("tag_name") or d\<close>\<close>

definition tag_or :: "release \<Rightarrow> string \<Rightarrow> string" where
  "tag_or r d = (case tag_name r of None \<Rightarrow> d | Some t \<Rightarrow> if t = [] then d else t)"

definition sort_key_of :: "release \<Rightarrow> version" where
  "sort_key_of r = parse_semver (tag_or r [])"

definition candidates :: "release list \<Rightarrow> bool \<Rightarrow> release list" where
  "candidates releases include_prereleases =
     filter (\<lambda>r. \<not> draft r \<and> (include_prereleases \<or> \<not> prerelease r)) releases"

text \<open>
  \<open>list.sort(key=..., reverse=True)\<close> is a stable sort in descending order: equal keys
  keep their original order. That is the reversal of the stable ascending sort of the
  reversed list.
\<close>

definition sort_desc :: "release list \<Rightarrow> release list" where
  "sort_desc xs = rev (sort_key sort_key_of (rev xs))"

text \<open>
  \<open>get_latest_release\<close>, applied to the list that \<open>http_get_json\<close> returned.
\<close>

definition get_latest_release :: "release list \<Rightarrow> bool \<Rightarrow> release option" where
  "get_latest_release releases include_prereleases =
     (let cs = candidates releases include_prereleases
      in if cs = [] then None else Some (hd (sort_desc cs)))"

fun find_asset :: "asset list \<Rightarrow> string \<Rightarrow> asset option" where
  "find_asset [] n = None"
| "find_asset (a # as) n = (if name a = n then Some a else find_asset as n)"

text \<open>\<open>", ".join(a.get("name") for a in release.get("assets", []))\<close>\<close>

fun join_comma :: "string list \<Rightarrow> string" where
  "join_comma [] = []"
| "join_comma [x] = x"
| "join_comma (x # y # ys) = x @ '', '' @ join_comma (y # ys)"

definition not_found_msg :: "string \<Rightarrow> asset list \<Rightarrow> string" where
  "not_found_msg wanted as =
     ''Asset '' @ [CHR 0x27] @ wanted @ [CHR 0x27] @ '' not found in release assets: '' @
     join_comma (map name as)"

subsection \<open>Persisted version state\<close>

text \<open>
  What \<open>json.load\<close> returns. Numbers are integers here; an object keeps its keys in
  order, as a Python \<open>dict\<close> does. The version file is held as the value it
  deserialises to, \<open>None\<close> when \<open>read_json\<close> falls into its \<open>except\<close> branch (the file
  is missing, unreadable or not JSON).
\<close>

datatype json =
    JNull
  | JBool bool
  | JNum int
  | JStr string
  | JArr "json list"
  | JObj "(string \<times> json) list"

fun truthy :: "json \<Rightarrow> bool" where
  "truthy JNull = False"
| "truthy (JBool b) = b"
| "truthy (JNum n) = (n \<noteq> 0)"
| "truthy (JStr s) = (s \<noteq> [])"
| "truthy (JArr xs) = (xs \<noteq> [])"
| "truthy (JObj kvs) = (kvs \<noteq> [])"

text \<open>\<open>vdata = read_json(version_file, default={}) or {}\<close>\<close>

definition load_vdata :: "json option \<Rightarrow> json" where
  "load_vdata f = (case f of None \<Rightarrow> JObj [] | Some j \<Rightarrow> if truthy j then j else JObj [])"

text \<open>\<open>vdata.get("version", "0.0.0")\<close>: only a \<open>dict\<close> has \<open>get\<close>.\<close>

definition get_version :: "json \<Rightarrow> exn + json" where
  "get_version vdata =
     (case vdata of
        JObj kvs \<Rightarrow> Inr (case map_of kvs ''version'' of None \<Rightarrow> JStr ''0.0.0'' | Some v \<Rightarrow> v)
      | _ \<Rightarrow> Inl (AttributeError ''get''))"

text \<open>The items of \<open>vdata\<close> once \<open>get\<close> has shown it to be a \<open>dict\<close>.\<close>

fun dict_of :: "json \<Rightarrow> (string \<times> json) list" where
  "dict_of (JObj kvs) = kvs"
| "dict_of _ = []"

text \<open>\<open>tag.lstrip("v")\<close>\<close>

definition lstrip_v :: "string \<Rightarrow> string" where
  "lstrip_v s = dropWhile (\<lambda>c. c = CHR ''v'') s"

text \<open>\<open>new_vdata = dict(vdata); new_vdata["version"] = tag.lstrip("v")\<close>\<close>

definition new_vdata :: "(string \<times> json) list \<Rightarrow> string \<Rightarrow> (string \<times> json) list" where
  "new_vdata kvs tag = AList.update ''version'' (JStr (lstrip_v tag)) kvs"

subsection \<open>The world the updater acts on\<close>

text \<open>
  Directory trees are values, and the file system maps the paths the updater names to what
  is found there: a directory tree, a regular file, or nothing. A path inside another tree
  is not addressed separately, and symbolic links are not modelled. Files inside the
  private temporary directory (the archive, the digest descriptor, the extraction output)
  are held as values.
\<close>

datatype node = File string | Dir "(string \<times> node) list"

type_synonym fs = "string \<Rightarrow> node option"

datatype msg =
    MCurrentVersion json
  | MRepo string string
  | MNoReleases
  | MLatestTag string bool
  | MRemoteOlder
  | MUpToDate
  | MDryRunDownload string
  | MDryRunVerify string
  | MDownloading string
  | MDownloadingChecksum string
  | MVerifying
  | MNoChecksum
  | MExtracting string
  | MSwapping
  | MCreatingBackup string
  | MRenameFailed exn
  | MUpdated string string
  | MRestarting string
  | MError exn

datatype call =
    HttpGetJson
  | HttpDownload string string
  | Mkdtemp
  | Makedirs string
  | UnzipTo string string
  | Copytree string
  | OsRename string string
  | ShutilMove string string
  | Rmtree string
  | WriteJsonAtomic string json
  | Restart string

text \<open>
  The trace of a run: every \<open>log\<close> line and every call to the outside, with the
  exception it raised, if any.
\<close>

datatype event = Log msg | Did call "exn option"

record world =
  dirs :: fs
  vfile :: "json option"
  trace :: "event list"

text \<open>
  What the outside answers. \<open>fault\<close> says which exception, if any, the call made at a
  given point of the trace raises; the other fields are the data a successful call
  returns. \<open>rmtree_rest\<close> says what a call of \<open>shutil.rmtree\<close> on a directory leaves
  behind at a given point of the trace: nothing when every deletion went through, else
  the entries that are still there. The two backup paths are what the two expressions
  built from \<open>int(time.time())\<close> evaluate to, in \<open>safe_swap\<close> and in the fallback.
\<close>

record env =
  fault :: "nat \<Rightarrow> call \<Rightarrow> exn option"
  api_releases :: "release list"
  body_of :: "string \<Rightarrow> string"
  decode_utf8 :: "string \<Rightarrow> string"
  sha256_hex :: "string \<Rightarrow> string"
  zip_entries :: "string \<Rightarrow> (string \<times> node) list"
  rmtree_rest :: "nat \<Rightarrow> string \<Rightarrow> (string \<times> node) list option"
  tmp_dir :: string
  backup_dir1 :: string
  backup_dir2 :: string

record config =
  repo :: string
  app_dir :: string
  version_file :: string
  asset_name :: string
  include_prereleases :: bool
  allow_downgrade :: bool
  restart_cmd :: "string option"
  dry_run :: bool

type_synonym 'a io = "world \<Rightarrow> (exn + 'a) \<times> world"

definition return_io :: "'a \<Rightarrow> 'a io" where
  "return_io a w = (Inr a, w)"

definition raise_io :: "exn \<Rightarrow> 'a io" where
  "raise_io x w = (Inl x, w)"

definition bind_io :: "'a io \<Rightarrow> ('a \<Rightarrow> 'b io) \<Rightarrow> 'b io" where
  "bind_io m f w = (case m w of (Inl x, w') \<Rightarrow> (Inl x, w') | (Inr a, w') \<Rightarrow> f a w')"

text \<open>\<open>try: m except Exception as x: h x\<close> and \<open>try: m finally: fin\<close>\<close>

definition catch_io :: "'a io \<Rightarrow> (exn \<Rightarrow> 'a io) \<Rightarrow> 'a io" where
  "catch_io m h w = (case m w of (Inl x, w') \<Rightarrow> h x w' | (Inr a, w') \<Rightarrow> (Inr a, w'))"

definition finally_io :: "'a io \<Rightarrow> (world \<Rightarrow> world) \<Rightarrow> 'a io" where
  "finally_io m fin w = (case m w of (r, w') \<Rightarrow> (r, fin w'))"

definition log :: "msg \<Rightarrow> unit io" where
  "log m w = (Inr (), w\<lparr>trace := trace w @ [Log m]\<rparr>)"

text \<open>A call that may raise; when it does not, \<open>eff\<close> is what it does to the directories.\<close>

definition perform :: "env \<Rightarrow> call \<Rightarrow> (fs \<Rightarrow> fs) \<Rightarrow> unit io" where
  "perform e c eff w =
     (let r = fault e (length (trace w)) c;
          w' = w\<lparr>trace := trace w @ [Did c r]\<rparr>
      in case r of Some x \<Rightarrow> (Inl x, w') | None \<Rightarrow> (Inr (), w'\<lparr>dirs := eff (dirs w')\<rparr>))"

text \<open>
  \<open>shutil.rmtree(p, ignore_errors=True)\<close> never raises. It removes the tree of a
  directory, as far as the deletions go through, and what could not be deleted stays
  without a word. On a regular file, and on a path that is not there, it does nothing.
\<close>

definition rmtree_ignore :: "env \<Rightarrow> string \<Rightarrow> unit io" where
  "rmtree_ignore e p w =
     (let w' = w\<lparr>trace := trace w @ [Did (Rmtree p) None]\<rparr>
      in case dirs w p of
           Some (Dir es) \<Rightarrow>
             (Inr (), w'\<lparr>dirs := (dirs w)(p := map_option Dir (rmtree_rest e (length (trace w)) p))\<rparr>)
         | _ \<Rightarrow> (Inr (), w'))"

text \<open>\<open>os.path.exists(p)\<close>\<close>

definition path_exists :: "string \<Rightarrow> bool io" where
  "path_exists p w = (Inr (dirs w p \<noteq> None), w)"

text \<open>
  \<open>write_json_atomic\<close>: the temporary file replaces the target in one step, so a failure
  leaves the target as it was.
\<close>

definition write_json_atomic :: "env \<Rightarrow> string \<Rightarrow> json \<Rightarrow> unit io" where
  "write_json_atomic e path data w =
     (let r = fault e (length (trace w)) (WriteJsonAtomic path data);
          w' = w\<lparr>trace := trace w @ [Did (WriteJsonAtomic path data) r]\<rparr>
      in case r of Some x \<Rightarrow> (Inl x, w') | None \<Rightarrow> (Inr (), w'\<lparr>vfile := Some data\<rparr>))"

text \<open>\<open>os.rename(src, dst)\<close> on directories.\<close>

definition rename_eff :: "string \<Rightarrow> string \<Rightarrow> fs \<Rightarrow> fs" where
  "rename_eff src dst f = f(src := None, dst := f src)"

text \<open>\<open>os.path.basename\<close> and \<open>os.path.join\<close> of two parts, as \<open>posixpath\<close> has them.\<close>

definition basename :: "string \<Rightarrow> string" where
  "basename p = rev (takeWhile (\<lambda>c. c \<noteq> CHR ''/'') (rev p))"

definition path_join :: "string \<Rightarrow> string \<Rightarrow> string" where
  "path_join a b =
     (if take 1 b = ''/'' then b
      else if a = [] \<or> last a = CHR ''/'' then a @ b
      else a @ ''/'' @ b)"

text \<open>
  \<open>shutil.move(src, dst)\<close>: when \<open>dst\<close> is an existing directory, \<open>src\<close> is moved inside
  it under its own base name.
\<close>

definition move_eff :: "string \<Rightarrow> string \<Rightarrow> fs \<Rightarrow> fs" where
  "move_eff src dst f =
     (case f src of
        None \<Rightarrow> f
      | Some n \<Rightarrow>
         (case f dst of
            Some (Dir es) \<Rightarrow> f(src := None, dst := Some (Dir (es @ [(basename src, n)])))
          | _ \<Rightarrow> f(src := None, dst := Some n)))"

subsection \<open>Install and swap\<close>

definition safe_swap :: "env \<Rightarrow> string \<Rightarrow> string \<Rightarrow> string io" where
  "safe_swap e staging_dir app =
     (let backup_dir = backup_dir1 e
      in bind_io (log (MCreatingBackup backup_dir)) (\<lambda>_.
         bind_io (path_exists backup_dir) (\<lambda>b.
         bind_io (if b then rmtree_ignore e backup_dir else return_io ()) (\<lambda>_.
         bind_io (path_exists app) (\<lambda>a.
         bind_io (if a then perform e (OsRename app backup_dir) (rename_eff app backup_dir)
                  else return_io ()) (\<lambda>_.
         bind_io (perform e (OsRename staging_dir app) (rename_eff staging_dir app)) (\<lambda>_.
         return_io backup_dir)))))))"


subsection \<open>The update routine\<close>

definition zip_path :: "config \<Rightarrow> env \<Rightarrow> string" where
  "zip_path c e = path_join (tmp_dir e) (asset_name c)"

definition sha_path :: "config \<Rightarrow> env \<Rightarrow> string" where
  "sha_path c e = path_join (tmp_dir e) (asset_name c @ ''.sha256'')"

definition staging_dir :: "env \<Rightarrow> string" where
  "staging_dir e = path_join (tmp_dir e) ''staging''"

definition final_stage :: "env \<Rightarrow> string" where
  "final_stage e = path_join (tmp_dir e) ''final''"

text \<open>\<open>http_download\<close>: the body that was streamed to \<open>dest\<close>.\<close>

definition http_download :: "env \<Rightarrow> string \<Rightarrow> string \<Rightarrow> string io" where
  "http_download e url dest =
     bind_io (perform e (HttpDownload url dest) (\<lambda>f. f)) (\<lambda>_. return_io (body_of e url))"

text \<open>\<open>if sha_url:\<close> holds for a string that is not empty.\<close>

definition url_given :: "string option \<Rightarrow> bool" where
  "url_given u = (case u of None \<Rightarrow> False | Some s \<Rightarrow> s \<noteq> [])"

text \<open>
  The content root: \<open>items = listdir(staging_dir)\<close>, and the single entry when it is a
  directory.
\<close>

definition extracted_root :: "(string \<times> node) list \<Rightarrow> (string \<times> node) list" where
  "extracted_root items = (case items of [(n, Dir sub)] \<Rightarrow> sub | _ \<Rightarrow> items)"

text \<open>Lines 258 to 287: download, verify, extract, and copy to \<open>final_stage\<close>.\<close>

definition stage :: "config \<Rightarrow> env \<Rightarrow> string \<Rightarrow> string option \<Rightarrow> unit io" where
  "stage c e asset_url sha_url =
     bind_io (log (MDownloading (zip_path c e))) (\<lambda>_.
     bind_io (http_download e asset_url (zip_path c e)) (\<lambda>zip_bytes.
     bind_io (if url_given sha_url then
                bind_io (log (MDownloadingChecksum (sha_path c e))) (\<lambda>_.
                bind_io (http_download e (the sha_url) (sha_path c e)) (\<lambda>sha_bytes.
                bind_io (log MVerifying) (\<lambda>_.
                (case verify_sha256_from_file (sha_path c e) (decode_utf8 e sha_bytes)
                        (sha256_hex e zip_bytes) of
                   Inl x \<Rightarrow> raise_io x
                 | Inr _ \<Rightarrow> return_io ()))))
              else log MNoChecksum) (\<lambda>_.
     bind_io (perform e (Makedirs (staging_dir e)) (\<lambda>f. f)) (\<lambda>_.
     bind_io (log (MExtracting (staging_dir e))) (\<lambda>_.
     bind_io (perform e (UnzipTo (zip_path c e) (staging_dir e)) (\<lambda>f. f)) (\<lambda>_.
     perform e (Copytree (final_stage e))
       (\<lambda>f. f(final_stage e := Some (Dir (extracted_root (zip_entries e zip_bytes)))))))))))"

text \<open>
  Lines 295 to 304: the body of \<open>except OSError as e\<close>, the copy and remove fallback.
  The result is \<open>backup_dir\<close>, which stays \<open>None\<close> when the live directory is no longer
  there.
\<close>

definition swap_fallback :: "config \<Rightarrow> env \<Rightarrow> exn \<Rightarrow> string option io" where
  "swap_fallback c e x =
     bind_io (log (MRenameFailed x)) (\<lambda>_.
     bind_io (path_exists (final_stage e)) (\<lambda>fe.
       if fe then
         bind_io (path_exists (app_dir c)) (\<lambda>ae.
         bind_io (if ae then
                    bind_io (log (MCreatingBackup (backup_dir2 e))) (\<lambda>_.
                    bind_io (perform e (ShutilMove (app_dir c) (backup_dir2 e))
                               (move_eff (app_dir c) (backup_dir2 e))) (\<lambda>_.
                    return_io (Some (backup_dir2 e))))
                  else return_io None) (\<lambda>backup_dir.
         bind_io (perform e (ShutilMove (final_stage e) (app_dir c))
                    (move_eff (final_stage e) (app_dir c))) (\<lambda>_.
         return_io backup_dir)))
       else raise_io x))"

text \<open>Lines 289 to 304: the swap; an exception that is no \<open>OSError\<close> is not handled here.\<close>

definition swap_block :: "config \<Rightarrow> env \<Rightarrow> string option io" where
  "swap_block c e =
     catch_io
       (bind_io (log MSwapping) (\<lambda>_.
        bind_io (safe_swap e (final_stage e) (app_dir c)) (\<lambda>b.
        return_io (Some b))))
       (\<lambda>x. if is_OSError x then swap_fallback c e x else raise_io x)"

text \<open>Lines 306 to 326: persist the version, drop the backup, restart.\<close>

definition persist ::
  "config \<Rightarrow> env \<Rightarrow> (string \<times> json) list \<Rightarrow> string \<Rightarrow> string option \<Rightarrow> bool io" where
  "persist c e vdata tag backup_dir =
     bind_io (write_json_atomic e (version_file c) (JObj (new_vdata vdata tag))) (\<lambda>_.
     bind_io (log (MUpdated (version_file c) (lstrip_v tag))) (\<lambda>_.
     bind_io (case backup_dir of
                None \<Rightarrow> return_io ()
              | Some b \<Rightarrow>
                 if b = [] then return_io ()
                 else bind_io (path_exists b) (\<lambda>be.
                      if be then rmtree_ignore e b else return_io ())) (\<lambda>_.
     bind_io (case restart_cmd c of
                None \<Rightarrow> return_io ()
              | Some cmd \<Rightarrow>
                 if cmd = [] then return_io ()
                 else bind_io (log (MRestarting cmd)) (\<lambda>_.
                      perform e (Restart cmd) (\<lambda>f. f))) (\<lambda>_.
     return_io True))))"

text \<open>The body of the \<open>try\<close> statement.\<close>

definition attempt ::
  "config \<Rightarrow> env \<Rightarrow> (string \<times> json) list \<Rightarrow> string \<Rightarrow> string \<Rightarrow> string option \<Rightarrow> bool io" where
  "attempt c e vdata tag asset_url sha_url =
     bind_io (stage c e asset_url sha_url) (\<lambda>_.
     bind_io (swap_block c e) (\<lambda>backup_dir.
     persist c e vdata tag backup_dir))"

text \<open>
  \<open>finally: shutil.rmtree(tmp_dir, ignore_errors=True)\<close>. \<open>final_stage\<close> lies inside
  \<open>tmp_dir\<close>: it goes when the whole tree goes, and when part of the tree stays,
  \<open>rmtree_rest\<close> says in the same way what stays of \<open>final_stage\<close>.
\<close>

definition cleanup_tmp :: "env \<Rightarrow> world \<Rightarrow> world" where
  "cleanup_tmp e w =
     (let n = length (trace w);
          w' = w\<lparr>trace := trace w @ [Did (Rmtree (tmp_dir e)) None]\<rparr>
      in case dirs w (tmp_dir e) of
           Some (Dir es) \<Rightarrow>
             (case rmtree_rest e n (tmp_dir e) of
                None \<Rightarrow> w'\<lparr>dirs := (dirs w)(tmp_dir e := None, final_stage e := None)\<rparr>
              | Some left \<Rightarrow>
                 w'\<lparr>dirs := (dirs w)
                   (tmp_dir e := Some (Dir left),
                    final_stage e :=
                      (case dirs w (final_stage e) of
                         None \<Rightarrow> None
                       | Some (Dir fs) \<Rightarrow> map_option Dir (rmtree_rest e n (final_stage e))
                       | Some (File b) \<Rightarrow>
                          (case rmtree_rest e n (final_stage e) of
                             None \<Rightarrow> None
                           | Some _ \<Rightarrow> Some (File b))))\<rparr>)
         | _ \<Rightarrow> w')"

text \<open>The \<open>try\<close> statement with its \<open>except Exception\<close> and \<open>finally\<close> clauses.\<close>

definition install ::
  "config \<Rightarrow> env \<Rightarrow> (string \<times> json) list \<Rightarrow> string \<Rightarrow> string \<Rightarrow> string option \<Rightarrow> bool io" where
  "install c e vdata tag asset_url sha_url =
     finally_io
       (catch_io (attempt c e vdata tag asset_url sha_url)
          (\<lambda>x. bind_io (log (MError x)) (\<lambda>_. return_io False)))
       (cleanup_tmp e)"

text \<open>Lines 238 to 255: asset resolution, the dry-run gate, the temporary directory.\<close>

definition resolve ::
  "config \<Rightarrow> env \<Rightarrow> (string \<times> json) list \<Rightarrow> string \<Rightarrow> release \<Rightarrow> bool io" where
  "resolve c e vdata tag rel =
     (case find_asset (assets rel) (asset_name c) of
        None \<Rightarrow> raise_io (FileNotFoundError (not_found_msg (asset_name c) (assets rel)))
      | Some a \<Rightarrow>
         (let asset_url = browser_download_url a;
              sha_url = map_option browser_download_url
                          (find_asset (assets rel) (asset_name c @ ''.sha256''))
          in if dry_run c then
               bind_io (log (MDryRunDownload (asset_name c))) (\<lambda>_.
               bind_io (if url_given sha_url then log (MDryRunVerify (asset_name c))
                        else return_io ()) (\<lambda>_.
               return_io False))
             else
               bind_io (perform e Mkdtemp (\<lambda>f. f(tmp_dir e := Some (Dir [])))) (\<lambda>_.
               install c e vdata tag asset_url sha_url)))"

text \<open>
  Lines 227 to 236: the comparison with the local version. \<open>parse_semver\<close> calls
  \<open>startswith\<close>, which only a string has.
\<close>

definition evaluate ::
  "config \<Rightarrow> env \<Rightarrow> (string \<times> json) list \<Rightarrow> json \<Rightarrow> release \<Rightarrow> bool io" where
  "evaluate c e vdata current_version rel =
     (let tag = tag_or rel ''0.0.0''
      in bind_io (log (MLatestTag tag (prerelease rel))) (\<lambda>_.
         case current_version of
           JStr cur \<Rightarrow>
             (let cmp = compare_versions tag cur
              in if cmp < 0 \<and> \<not> allow_downgrade c then
                   bind_io (log MRemoteOlder) (\<lambda>_. return_io False)
                 else if cmp = 0 then
                   bind_io (log MUpToDate) (\<lambda>_. return_io False)
                 else resolve c e vdata tag rel)
         | _ \<Rightarrow> raise_io (AttributeError ''startswith'')))"

text \<open>
  \<open>run_update\<close>. The result is \<open>Inr\<close> of the value returned, or \<open>Inl\<close> of the exception
  that leaves the function. \<open>asset_name c\<close> is what \<open>asset_pattern.format\<close> returned.
\<close>

definition run_update :: "config \<Rightarrow> env \<Rightarrow> bool io" where
  "run_update c e w =
     (let vdata = load_vdata (vfile w)
      in case get_version vdata of
           Inl x \<Rightarrow> (Inl x, w)
         | Inr current_version \<Rightarrow>
            bind_io (log (MCurrentVersion current_version)) (\<lambda>_.
            bind_io (log (MRepo (repo c) (asset_name c))) (\<lambda>_.
            bind_io (perform e HttpGetJson (\<lambda>f. f)) (\<lambda>_.
            case get_latest_release (api_releases e) (include_prereleases c) of
              None \<Rightarrow> bind_io (log MNoReleases) (\<lambda>_. return_io False)
            | Some rel \<Rightarrow> evaluate c e (dict_of vdata) current_version rel))) w)"

subsection \<open>Properties of traces and of runs\<close>

text \<open>A sixty-four digit hexadecimal token starts at offset \<open>n\<close> of \<open>s\<close>.\<close>

definition hex_token_at :: "string \<Rightarrow> nat \<Rightarrow> bool" where
  "hex_token_at s n = (n + 64 \<le> length s \<and> list_all is_hex (take 64 (drop n s)))"

fun is_write :: "event \<Rightarrow> bool" where
  "is_write (Did (WriteJsonAtomic p j) r) = True"
| "is_write _ = False"

fun is_download :: "event \<Rightarrow> bool" where
  "is_download (Did (HttpDownload u d) r) = True"
| "is_download _ = False"

text \<open>
  The staged tree reached the live path: the rename of \<open>safe_swap\<close> or the move of the
  fallback returned without raising.
\<close>

definition swap_done :: "string \<Rightarrow> string \<Rightarrow> event list \<Rightarrow> bool" where
  "swap_done staged live t =
     (Did (OsRename staged live) None \<in> set t \<or> Did (ShutilMove staged live) None \<in> set t)"

text \<open>Every attempt to write the version file comes after the swap.\<close>

definition writes_follow_swap :: "string \<Rightarrow> string \<Rightarrow> event list \<Rightarrow> bool" where
  "writes_follow_swap staged live t =
     (\<forall>pre ev post. t = pre @ ev # post \<and> is_write ev \<longrightarrow> swap_done staged live pre)"

text \<open>
  The run ended at the evaluation stage: the last thing it did was to print one of the
  three skip messages.
\<close>

fun is_skip :: "event \<Rightarrow> bool" where
  "is_skip (Log MNoReleases) = True"
| "is_skip (Log MUpToDate) = True"
| "is_skip (Log MRemoteOlder) = True"
| "is_skip _ = False"

definition skipped :: "event list \<Rightarrow> bool" where
  "skipped t = (t \<noteq> [] \<and> is_skip (last t))"

definition downloads :: "event list \<Rightarrow> bool" where
  "downloads t = list_ex is_download t"


text \<open>
  A run from a world satisfying \<open>P\<close> ends in a result and a world satisfying \<open>Q\<close>;
  \<open>keeps\<close> is the case of one predicate on the world, kept whatever the result.
\<close>

definition triple :: "(world \<Rightarrow> bool) \<Rightarrow> 'a io \<Rightarrow> ((exn + 'a) \<Rightarrow> world \<Rightarrow> bool) \<Rightarrow> bool" where
  "triple P m Q = (\<forall>w. P w \<longrightarrow> (case m w of (r, w') \<Rightarrow> Q r w'))"

definition keeps :: "(world \<Rightarrow> bool) \<Rightarrow> 'a io \<Rightarrow> bool" where
  "keeps P m = triple P m (\<lambda>_. P)"

text \<open>
  Predicates on the world that no step other than a write of the version file can
  falsify, and predicates that such a write cannot falsify either.
\<close>

definition stable :: "(world \<Rightarrow> bool) \<Rightarrow> bool" where
  "stable P =
     ((\<forall>w ev. \<not> is_write ev \<longrightarrow> P w \<longrightarrow> P (w\<lparr>trace := trace w @ [ev]\<rparr>)) \<and>
      (\<forall>w d. P w \<longrightarrow> P (w\<lparr>dirs := d\<rparr>)))"

definition wstable :: "(world \<Rightarrow> bool) \<Rightarrow> bool" where
  "wstable P =
     ((\<forall>w p j r. P w \<longrightarrow> P (w\<lparr>trace := trace w @ [Did (WriteJsonAtomic p j) r]\<rparr>)) \<and>
      (\<forall>w v. P w \<longrightarrow> P (w\<lparr>vfile := v\<rparr>)))"

text \<open>
  The invariant of a run that started with version file \<open>v0\<close>: writes follow the swap,
  and as long as the swap has not been done the version file is what it was.
\<close>

definition update_inv :: "string \<Rightarrow> string \<Rightarrow> json option \<Rightarrow> world \<Rightarrow> bool" where
  "update_inv staged live v0 w =
     (writes_follow_swap staged live (trace w) \<and>
      (\<not> swap_done staged live (trace w) \<longrightarrow> vfile w = v0))"

definition swapped_inv :: "string \<Rightarrow> string \<Rightarrow> world \<Rightarrow> bool" where
  "swapped_inv staged live w =
     (writes_follow_swap staged live (trace w) \<and> swap_done staged live (trace w))"

text \<open>What holds after the swap block: the invariant, and the swap when it returned.\<close>

definition swap_post :: "string \<Rightarrow> string \<Rightarrow> json option \<Rightarrow> exn + 'a \<Rightarrow> world \<Rightarrow> bool" where
  "swap_post staged live v0 r w =
     (case r of Inl x \<Rightarrow> update_inv staged live v0 w | Inr a \<Rightarrow> swapped_inv staged live w)"

subsection \<open>Concrete inputs\<close>

definition demo_asset :: asset where
  "demo_asset =
     \<lparr>name = ''demo-linux-x64.zip'', browser_download_url = ''https://example.org/demo.zip''\<rparr>"

definition demo_release :: release where
  "demo_release =
     \<lparr>tag_name = Some ''v1.2.0'', draft = False, prerelease = False, assets = [demo_asset]\<rparr>"

definition zero_release :: release where
  "zero_release =
     \<lparr>tag_name = Some ''0.0.0'', draft = False, prerelease = False, assets = [demo_asset]\<rparr>"

definition old_release :: release where
  "old_release =
     \<lparr>tag_name = Some ''1.0.0'', draft = False, prerelease = False, assets = []\<rparr>"

definition draft_release :: release where
  "draft_release =
     \<lparr>tag_name = Some ''9.0.0'', draft = True, prerelease = False, assets = []\<rparr>"

definition beta_release :: release where
  "beta_release =
     \<lparr>tag_name = Some ''2.0.0-beta.1'', draft = False, prerelease = True, assets = []\<rparr>"

definition demo_env :: env where
  "demo_env =
     \<lparr>fault = (\<lambda>_ _. None), api_releases = [demo_release],
      body_of = (\<lambda>_. ''PK''), decode_utf8 = (\<lambda>s. s), sha256_hex = (\<lambda>_. []),
      zip_entries = (\<lambda>_. [(''demo'', Dir [(''main.py'', File ''new'')])]),
      rmtree_rest = (\<lambda>_ _. None),
      tmp_dir = ''/tmp/upd-1'', backup_dir1 = ''/opt/app.backup-1'',
      backup_dir2 = ''/opt/app.backup-2''\<rparr>"

definition demo_config :: config where
  "demo_config =
     \<lparr>repo = ''o/r'', app_dir = ''/opt/app'', version_file = ''/opt/version.json'',
      asset_name = ''demo-linux-x64.zip'', include_prereleases = False,
      allow_downgrade = False, restart_cmd = None, dry_run = False\<rparr>"

definition demo_world :: world where
  "demo_world =
     \<lparr>dirs = (\<lambda>_. None)(''/opt/app'' := Some (Dir [(''main.py'', File ''old'')])),
      vfile = Some (JObj [(''version'', JStr ''1.0.0''), (''channel'', JStr ''stable'')]),
      trace = []\<rparr>"

text \<open>The SHA-256 digests of the empty file and of the three bytes \<open>abc\<close>.\<close>

definition digest_empty :: string where
  "digest_empty = ''e3b0c44298fc1c149afbf4c8996fb92427ae41e4649b934ca495991b7852b855''"

definition digest_abc :: string where
  "digest_abc = ''ba7816bf8f01cfea414140de5dae2223b00361a396177a9cb410ff61f20015ad''"

definition digest_empty_upper :: string where
  "digest_empty_upper = ''E3B0C44298FC1C149AFBF4C8996FB92427AE41E4649B934CA495991B7852B855''"

section \<open>Version comparator\<close>

lemmas semver_defs = parse_semver_def strip_v_def match3_def match2_def digits_dot_def
  digits_tail_def tail_ok_def dollar_def is_digit_def py_int_def digit_val_def newline_def

text \<open>
  Claim C7: for all version strings \<open>a\<close> and \<open>b\<close>, comparing \<open>a\<close> with \<open>b\<close> gives the
  negation of comparing \<open>b\<close> with \<open>a\<close>, and comparing \<open>a\<close> with itself gives equal.
\<close>

theorem compare_versions_antisym:
  "compare_versions a b = - compare_versions b a \<and> compare_versions a a = 0"
  by (simp add: compare_versions_def Let_def)

theorem compare_versions_antisym_witness:
  "compare_versions ''1.2.0'' ''v1.0.0'' = 1 \<and> compare_versions ''v1.0.0'' ''1.2.0'' = - 1 \<and>
   compare_versions ''1.2.0'' ''1.2.0'' = 0"
proof -
  have "compare_versions ''v1.0.0'' ''1.2.0'' = - 1"
    by (simp add: compare_versions_def semver_defs Let_def)
  then show ?thesis
    using compare_versions_antisym [of "''1.2.0''" "''v1.0.0''"] by simp
qed

text \<open>
  Claim C8 as stated, for any non-digit prefix character, fails: only the letter \<open>v\<close> is
  removed, so the prefix \<open>x\<close> leaves a string that neither pattern matches.
\<close>

theorem parse_semver_other_prefix_counterexample:
  "parse_semver ''x1.2.3'' \<noteq> parse_semver ''1.2.3''"
  by (simp add: semver_defs Let_def)

text \<open>
  Claim C8, amended: a leading \<open>v\<close> before a string that does not itself start with
  \<open>v\<close> (every numeric version form is one) parses to the same version as the string
  without it; any other leading character that is not a digit gives the lowest version
  \<open>(-1, -1, -1)\<close>.
\<close>

theorem parse_semver_v_prefix:
  "(take 1 s \<noteq> ''v'' \<longrightarrow> parse_semver (CHR ''v'' # s) = parse_semver s) \<and>
   (\<not> is_digit c \<and> c \<noteq> CHR ''v'' \<longrightarrow> parse_semver (c # s) = (- 1, - 1, - 1))"
proof -
  have "parse_semver (CHR ''v'' # s) = parse_semver s" if "take 1 s \<noteq> ''v''"
    using that by (cases s) (auto simp add: parse_semver_def strip_v_def)
  moreover have "parse_semver (c # s) = (- 1, - 1, - 1)" if "\<not> is_digit c" "c \<noteq> CHR ''v''"
    using that by (simp add: parse_semver_def strip_v_def match3_def match2_def digits_dot_def)
  ultimately show ?thesis by blast
qed

theorem parse_semver_v_prefix_witness:
  "take 1 ''1.2.3'' \<noteq> ''v'' \<and> parse_semver ''v1.2.3'' = parse_semver ''1.2.3'' \<and>
   \<not> is_digit (CHR ''x'') \<and> CHR ''x'' \<noteq> CHR ''v'' \<and> parse_semver ''x1.2.3'' = (- 1, - 1, - 1)"
  using parse_semver_v_prefix [of "''1.2.3''" "CHR ''x''"] by (simp add: is_digit_def)

section \<open>Release selection\<close>

lemma sorted_map_le_last:
  "sorted (map f ys) \<Longrightarrow> c \<in> set ys \<Longrightarrow> f c \<le> f (last ys)"
  by (induction ys) auto

lemma hd_sort_desc_max:
  assumes "c \<in> set xs"
  shows "sort_key_of c \<le> sort_key_of (hd (sort_desc xs))"
proof -
  let ?ys = "sort_key sort_key_of (rev xs)"
  have s: "sorted (map sort_key_of ?ys)" by (rule sorted_sort_key)
  have "hd (sort_desc xs) = last ?ys" by (simp add: sort_desc_def hd_rev)
  moreover have "c \<in> set ?ys" using assms by simp
  ultimately show ?thesis using s sorted_map_le_last by metis
qed

lemma hd_sort_desc_mem: "xs \<noteq> [] \<Longrightarrow> hd (sort_desc xs) \<in> set xs"
proof -
  assume "xs \<noteq> []"
  then have "set (sort_desc xs) \<noteq> {}" by (simp add: sort_desc_def)
  then have "sort_desc xs \<noteq> []" by auto
  then have "hd (sort_desc xs) \<in> set (sort_desc xs)" by simp
  then show ?thesis by (simp add: sort_desc_def)
qed

lemma compare_le_iff: "compare_versions a b \<le> 0 \<longleftrightarrow> parse_semver a \<le> parse_semver b"
  by (auto simp add: compare_versions_def Let_def)

text \<open>
  Claim C3: \<open>get_latest_release\<close> returns nothing exactly when every release is a draft, or
  a prerelease while prereleases are not included; otherwise it returns a release of the
  list that is no draft, is a prerelease only when those are included, and whose tag no
  surviving release exceeds in the version order.
\<close>

theorem get_latest_release_max:
  "(get_latest_release rs inc = None \<longleftrightarrow>
      (\<forall>r \<in> set rs. draft r \<or> (\<not> inc \<and> prerelease r))) \<and>
   (\<forall>r. get_latest_release rs inc = Some r \<longrightarrow>
      r \<in> set rs \<and> \<not> draft r \<and> (inc \<or> \<not> prerelease r) \<and>
      (\<forall>c \<in> set rs. \<not> draft c \<and> (inc \<or> \<not> prerelease c) \<longrightarrow>
          compare_versions (tag_or c []) (tag_or r []) \<le> 0))"
proof -
  let ?cs = "candidates rs inc"
  have mem: "\<And>x. x \<in> set ?cs \<longleftrightarrow> x \<in> set rs \<and> \<not> draft x \<and> (inc \<or> \<not> prerelease x)"
    by (simp add: candidates_def)
  have none: "get_latest_release rs inc = None \<longleftrightarrow> ?cs = []"
    by (simp add: get_latest_release_def Let_def)
  have "?cs = [] \<longleftrightarrow> (\<forall>r \<in> set rs. draft r \<or> (\<not> inc \<and> prerelease r))"
    by (auto simp add: candidates_def filter_empty_conv)
  with none have A: "get_latest_release rs inc = None \<longleftrightarrow>
      (\<forall>r \<in> set rs. draft r \<or> (\<not> inc \<and> prerelease r))" by simp
  have B: "r \<in> set rs \<and> \<not> draft r \<and> (inc \<or> \<not> prerelease r) \<and>
      (\<forall>c \<in> set rs. \<not> draft c \<and> (inc \<or> \<not> prerelease c) \<longrightarrow>
          compare_versions (tag_or c []) (tag_or r []) \<le> 0)"
    if h: "get_latest_release rs inc = Some r" for r
  proof -
    from h have ne: "?cs \<noteq> []" and r: "r = hd (sort_desc ?cs)"
      by (auto simp add: get_latest_release_def Let_def split: if_splits)
    from ne r have "r \<in> set ?cs" using hd_sort_desc_mem by blast
    moreover have "compare_versions (tag_or c []) (tag_or r []) \<le> 0" if "c \<in> set ?cs" for c
      using hd_sort_desc_max [OF that] r by (simp add: compare_le_iff sort_key_of_def)
    ultimately show ?thesis using mem by blast
  qed
  from A B show ?thesis by blast
qed

lemmas release_defs = demo_release_def old_release_def draft_release_def beta_release_def
  zero_release_def demo_asset_def

theorem get_latest_release_max_witness:
  "get_latest_release [draft_release, old_release, beta_release, demo_release] False
     = Some demo_release \<and>
   compare_versions (tag_or old_release []) (tag_or demo_release []) \<le> 0 \<and>
   get_latest_release [draft_release, beta_release] False = None"
proof -
  let ?rs = "[draft_release, old_release, beta_release, demo_release]"
  have g: "get_latest_release ?rs False = Some demo_release"
    by (simp add: get_latest_release_def candidates_def sort_desc_def sort_key_of_def tag_or_def
        release_defs semver_defs Let_def less_eq_prod_def)
  have m: "old_release \<in> set ?rs \<and> \<not> draft old_release \<and> (False \<or> \<not> prerelease old_release)"
    by (simp add: release_defs)
  have d: "\<forall>r \<in> set [draft_release, beta_release]. draft r \<or> (\<not> False \<and> prerelease r)"
    by (simp add: release_defs)
  from get_latest_release_max [of ?rs False] g m
  have "compare_versions (tag_or old_release []) (tag_or demo_release []) \<le> 0" by blast
  moreover from get_latest_release_max [of "[draft_release, beta_release]" False] d
  have "get_latest_release [draft_release, beta_release] False = None" by blast
  ultimately show ?thesis using g by simp
qed

section \<open>Integrity verifier\<close>

lemma space_not_hex: "is_space c \<Longrightarrow> \<not> is_hex c"
  by (auto simp add: is_space_def is_hex_def Let_def)

lemma search64_dropWhile: "search64 (dropWhile is_space s) = search64 s"
  by (induction s) (auto simp add: space_not_hex)

lemma search64_snoc: "\<not> is_hex c \<Longrightarrow> search64 (s @ [c]) = search64 s"
proof (induction s)
  case Nil
  then show ?case by simp
next
  case (Cons a s)
  have "(64 \<le> length ((a # s) @ [c]) \<and> list_all is_hex (take 64 ((a # s) @ [c])))
      = (64 \<le> length (a # s) \<and> list_all is_hex (take 64 (a # s)))"
  proof (cases "64 \<le> length (a # s)")
    case True
    then show ?thesis by simp
  next
    case False
    then have "take 64 ((a # s) @ [c]) = (a # s) @ [c]" by simp
    with False Cons.prems show ?thesis by simp
  qed
  moreover have "take 64 ((a # s) @ [c]) = take 64 (a # s)" if "64 \<le> length (a # s)"
    using that by simp
  ultimately show ?case using Cons by auto
qed

lemma search64_rstrip: "search64 (rev (dropWhile is_space (rev s))) = search64 s"
  by (induction s rule: rev_induct) (auto simp add: search64_snoc space_not_hex)

lemma search64_strip: "search64 (py_strip s) = search64 s"
  by (simp add: py_strip_def search64_rstrip search64_dropWhile)

lemma search64_None: "search64 s = None \<longleftrightarrow> (\<forall>i. \<not> hex_token_at s i)"
proof (induction s)
  case Nil
  then show ?case by (simp add: hex_token_at_def)
next
  case (Cons a s)
  have shift: "hex_token_at (a # s) (Suc i) = hex_token_at s i" for i
    by (auto simp add: hex_token_at_def)
  have zero: "hex_token_at (a # s) 0 = (64 \<le> length (a # s) \<and> list_all is_hex (take 64 (a # s)))"
    by (simp add: hex_token_at_def)
  show ?case
  proof (cases "hex_token_at (a # s) 0")
    case True
    then show ?thesis using zero by auto
  next
    case False
    then have "search64 (a # s) = search64 s" using zero by auto
    moreover have "(\<forall>i. \<not> hex_token_at (a # s) i) = (\<forall>i. \<not> hex_token_at s i)"
      using False shift by (metis not0_implies_Suc)
    ultimately show ?thesis using Cons by simp
  qed
qed

lemma search64_first:
  "hex_token_at s n \<Longrightarrow> \<forall>i<n. \<not> hex_token_at s i \<Longrightarrow> search64 s = Some (take 64 (drop n s))"
proof (induction s arbitrary: n)
  case Nil
  then show ?case by (simp add: hex_token_at_def)
next
  case (Cons a s)
  have zero: "hex_token_at (a # s) 0 = (64 \<le> length (a # s) \<and> list_all is_hex (take 64 (a # s)))"
    by (simp add: hex_token_at_def)
  show ?case
  proof (cases n)
    case 0
    with Cons.prems zero show ?thesis by auto
  next
    case (Suc m)
    have shift: "hex_token_at (a # s) (Suc i) = hex_token_at s i" for i
      by (auto simp add: hex_token_at_def)
    from Suc Cons.prems have "\<not> hex_token_at (a # s) 0" by simp
    then have e: "search64 (a # s) = search64 s" using zero by auto
    from Suc Cons.prems shift have "hex_token_at s m" by simp
    moreover have "\<forall>i<m. \<not> hex_token_at s i" using Suc Cons.prems(2) shift by auto
    ultimately have "search64 s = Some (take 64 (drop m s))" by (rule Cons.IH)
    with e Suc show ?thesis by simp
  qed
qed

lemma mismatch_msg_carries_both:
  "\<exists>a b. mismatch_msg expected actual = a @ expected @ b @ actual"
  unfolding mismatch_msg_def by (metis append.assoc)

text \<open>
  Claim C6 as stated fails in its first part: a descriptor that contains the digest of the
  file after another sixty-four digit token is rejected, since only the first token is read.
\<close>

theorem verify_later_token_counterexample:
  "verify_sha256_from_file ''demo.zip.sha256''
     (digest_abc @ ''  other.zip'' @ [newline] @ digest_empty @ ''  demo.zip'' @ [newline])
     digest_empty
   = Inl (ValueError (mismatch_msg digest_abc digest_empty))"
  by (simp add: verify_sha256_from_file_def search64_strip digest_abc_def digest_empty_def
      is_hex_def lower_char_def Let_def)

text \<open>
  Claim C6, amended: when the leftmost sixty-four digit hexadecimal token of the
  descriptor starts at offset \<open>n\<close>, verification succeeds if that token in lower case is
  the digest of the file, and otherwise fails with an error whose message carries the
  token in lower case and the digest of the file; when the descriptor has no such token,
  verification fails with the format error.
\<close>

theorem verify_first_token:
  "(hex_token_at txt n \<and> (\<forall>i<n. \<not> hex_token_at txt i) \<longrightarrow>
      verify_sha256_from_file p txt actual =
        (if map lower_char (take 64 (drop n txt)) = actual then Inr True
         else Inl (ValueError
                (mismatch_msg (map lower_char (take 64 (drop n txt))) actual)))) \<and>
   ((\<forall>i. \<not> hex_token_at txt i) \<longrightarrow>
      verify_sha256_from_file p txt actual =
        Inl (ValueError (''Invalid sha256 file format: '' @ p)))"
proof -
  have "verify_sha256_from_file p txt actual =
        (if map lower_char (take 64 (drop n txt)) = actual then Inr True
         else Inl (ValueError
                (mismatch_msg (map lower_char (take 64 (drop n txt))) actual)))"
    if "hex_token_at txt n" "\<forall>i<n. \<not> hex_token_at txt i"
  proof -
    from that have "search64 txt = Some (take 64 (drop n txt))" by (rule search64_first)
    then show ?thesis
      by (auto simp add: verify_sha256_from_file_def search64_strip Let_def)
  qed
  moreover have "verify_sha256_from_file p txt actual =
        Inl (ValueError (''Invalid sha256 file format: '' @ p))"
    if "\<forall>i. \<not> hex_token_at txt i"
  proof -
    from that have "search64 txt = None" by (simp add: search64_None)
    then show ?thesis by (simp add: verify_sha256_from_file_def search64_strip)
  qed
  ultimately show ?thesis by blast
qed

theorem verify_first_token_witness:
  "hex_token_at (digest_empty_upper @ ''  demo.zip'') 0 \<and>
   verify_sha256_from_file ''demo.zip.sha256'' (digest_empty_upper @ ''  demo.zip'') digest_empty
     = Inr True \<and>
   verify_sha256_from_file ''demo.zip.sha256'' (digest_empty_upper @ ''  demo.zip'') digest_abc
     = Inl (ValueError (mismatch_msg digest_empty digest_abc)) \<and>
   (\<forall>i. \<not> hex_token_at ''not a digest'' i) \<and>
   verify_sha256_from_file ''demo.zip.sha256'' ''not a digest'' digest_empty
     = Inl (ValueError ''Invalid sha256 file format: demo.zip.sha256'')"
proof -
  let ?txt = "digest_empty_upper @ ''  demo.zip''"
  have h: "hex_token_at ?txt 0"
    by (simp add: hex_token_at_def digest_empty_upper_def is_hex_def)
  have l: "map lower_char (take 64 (drop 0 ?txt)) = digest_empty"
    by (simp add: digest_empty_upper_def digest_empty_def lower_char_def)
  have ne: "digest_empty \<noteq> digest_abc"
    by (simp add: digest_empty_def digest_abc_def)
  have n: "\<forall>i. \<not> hex_token_at ''not a digest'' i"
    by (simp add: hex_token_at_def)
  from verify_first_token [of ?txt 0 "''demo.zip.sha256''" digest_empty] h l
  have a: "verify_sha256_from_file ''demo.zip.sha256'' ?txt digest_empty = Inr True"
    by simp
  from verify_first_token [of ?txt 0 "''demo.zip.sha256''" digest_abc] h l ne
  have b: "verify_sha256_from_file ''demo.zip.sha256'' ?txt digest_abc
     = Inl (ValueError (mismatch_msg digest_empty digest_abc))"
    by simp
  from verify_first_token [of "''not a digest''" 0 "''demo.zip.sha256''" digest_empty] n
  have c: "verify_sha256_from_file ''demo.zip.sha256'' ''not a digest'' digest_empty
     = Inl (ValueError ''Invalid sha256 file format: demo.zip.sha256'')"
    by simp
  from h a b n c show ?thesis by blast
qed

section \<open>Rules for runs\<close>

lemma tripleI: "(\<And>w r w'. P w \<Longrightarrow> m w = (r, w') \<Longrightarrow> Q r w') \<Longrightarrow> triple P m Q"
  by (auto simp add: triple_def)

lemma tripleD: "triple P m Q \<Longrightarrow> P w \<Longrightarrow> m w = (r, w') \<Longrightarrow> Q r w'"
  by (auto simp add: triple_def)

lemma keepsD: "keeps P m \<Longrightarrow> P w \<Longrightarrow> m w = (r, w') \<Longrightarrow> P w'"
  by (auto simp add: keeps_def triple_def)

lemma triple_bind:
  assumes "triple P m (\<lambda>r w. case r of Inl x \<Rightarrow> Q (Inl x) w | Inr a \<Rightarrow> R a w)"
    and "\<And>a. triple (R a) (f a) Q"
  shows "triple P (bind_io m f) Q"
proof (rule tripleI)
  fix w r w'
  assume p: "P w" and b: "bind_io m f w = (r, w')"
  obtain r1 w1 where m: "m w = (r1, w1)" by (cases "m w")
  from tripleD [OF assms(1) p m]
  have c: "case r1 of Inl x \<Rightarrow> Q (Inl x) w1 | Inr a \<Rightarrow> R a w1" .
  show "Q r w'"
  proof (cases r1)
    case (Inl x)
    with b m have "r = Inl x" "w' = w1" by (auto simp add: bind_io_def)
    with c Inl show ?thesis by simp
  next
    case (Inr a)
    from b m Inr have "f a w1 = (r, w')" by (simp add: bind_io_def)
    moreover from c Inr have "R a w1" by simp
    ultimately show ?thesis using tripleD [OF assms(2)] by blast
  qed
qed

lemma triple_weaken:
  "triple P' m Q' \<Longrightarrow> (\<And>w. P w \<Longrightarrow> P' w) \<Longrightarrow> (\<And>r w. Q' r w \<Longrightarrow> Q r w) \<Longrightarrow> triple P m Q"
proof (rule tripleI)
  fix w r w'
  assume t: "triple P' m Q'" and pp: "\<And>w. P w \<Longrightarrow> P' w" and qq: "\<And>r w. Q' r w \<Longrightarrow> Q r w"
    and p: "P w" and m: "m w = (r, w')"
  from tripleD [OF t pp [OF p] m] show "Q r w'" by (rule qq)
qed

lemma keeps_bind: "keeps P m \<Longrightarrow> (\<And>a. keeps P (f a)) \<Longrightarrow> keeps P (bind_io m f)"
proof -
  assume m: "keeps P m" and f: "\<And>a. keeps P (f a)"
  have "triple P m (\<lambda>r w. case r of Inl x \<Rightarrow> P w | Inr a \<Rightarrow> P w)"
  proof (rule tripleI)
    fix w r w'
    assume "P w" "m w = (r, w')"
    with m have "P w'" by (rule keepsD)
    then show "case r of Inl x \<Rightarrow> P w' | Inr a \<Rightarrow> P w'" by (cases r) simp_all
  qed
  moreover have "triple P (f a) (\<lambda>_. P)" for a using f [of a] by (simp add: keeps_def)
  ultimately have "triple P (bind_io m f) (\<lambda>_. P)" by (rule triple_bind)
  then show ?thesis by (simp add: keeps_def)
qed

lemma keeps_return: "keeps P (return_io a)"
  by (simp add: keeps_def triple_def return_io_def)

lemma keeps_raise: "keeps P (raise_io x)"
  by (simp add: keeps_def triple_def raise_io_def)

lemma keeps_path_exists: "keeps P (path_exists p)"
  by (simp add: keeps_def triple_def path_exists_def)

lemma keeps_if: "keeps P a \<Longrightarrow> keeps P b \<Longrightarrow> keeps P (if c then a else b)"
  by simp

lemma keeps_case_sum:
  "(\<And>x. keeps P (f x)) \<Longrightarrow> (\<And>y. keeps P (g y)) \<Longrightarrow> keeps P (case s of Inl x \<Rightarrow> f x | Inr y \<Rightarrow> g y)"
  by (cases s) simp_all

lemma keeps_case_option:
  "keeps P a \<Longrightarrow> (\<And>y. keeps P (g y)) \<Longrightarrow> keeps P (case s of None \<Rightarrow> a | Some y \<Rightarrow> g y)"
  by (cases s) simp_all

lemma keeps_log: "stable P \<Longrightarrow> keeps P (log m)"
  by (simp add: keeps_def triple_def log_def stable_def)

lemma keeps_rmtree: "stable P \<Longrightarrow> keeps P (rmtree_ignore e p)"
proof -
  assume s: "stable P"
  have "P w'" if p: "P w" and m: "rmtree_ignore e p w = (r, w')" for w r w'
  proof -
    let ?w1 = "w\<lparr>trace := trace w @ [Did (Rmtree p) None]\<rparr>"
    from s p have p1: "P ?w1" by (simp add: stable_def)
    from m have "w' = ?w1 \<or> (\<exists>d. w' = ?w1\<lparr>dirs := d\<rparr>)"
      by (auto simp add: rmtree_ignore_def Let_def split: option.splits node.splits)
    with s p1 show ?thesis unfolding stable_def by blast
  qed
  then show ?thesis by (auto simp add: keeps_def triple_def)
qed

lemma keeps_perform:
  assumes s: "stable P" and c: "\<And>r. \<not> is_write (Did c r)"
  shows "keeps P (perform e c eff)"
proof -
  have "P w'" if p: "P w" and m: "perform e c eff w = (r, w')" for w r w'
  proof -
    let ?r = "fault e (length (trace w)) c"
    let ?w1 = "w\<lparr>trace := trace w @ [Did c ?r]\<rparr>"
    from s c p have p1: "P ?w1" unfolding stable_def by blast
    show ?thesis
    proof (cases ?r)
      case None
      with m have "w' = ?w1\<lparr>dirs := eff (dirs ?w1)\<rparr>" by (simp add: perform_def Let_def)
      with s p1 show ?thesis unfolding stable_def by blast
    next
      case (Some x)
      with m have "w' = ?w1" by (simp add: perform_def Let_def)
      with p1 show ?thesis by simp
    qed
  qed
  then show ?thesis by (auto simp add: keeps_def triple_def)
qed

lemma keeps_write:
  assumes s: "wstable P"
  shows "keeps P (write_json_atomic e p j)"
proof -
  have "P w'" if p: "P w" and m: "write_json_atomic e p j w = (r, w')" for w r w'
  proof -
    let ?r = "fault e (length (trace w)) (WriteJsonAtomic p j)"
    let ?w1 = "w\<lparr>trace := trace w @ [Did (WriteJsonAtomic p j) ?r]\<rparr>"
    from s p have p1: "P ?w1" unfolding wstable_def by blast
    show ?thesis
    proof (cases ?r)
      case None
      with m have "w' = ?w1\<lparr>vfile := Some j\<rparr>" by (simp add: write_json_atomic_def Let_def)
      with s p1 show ?thesis unfolding wstable_def by blast
    next
      case (Some x)
      with m have "w' = ?w1" by (simp add: write_json_atomic_def Let_def)
      with p1 show ?thesis by simp
    qed
  qed
  then show ?thesis by (auto simp add: keeps_def triple_def)
qed

lemmas keeps_rules = keeps_bind keeps_return keeps_raise keeps_path_exists keeps_if
  keeps_case_sum keeps_case_option keeps_log keeps_rmtree keeps_perform keeps_write

section \<open>The blocks of the update routine\<close>

lemma keeps_stage: "stable P \<Longrightarrow> keeps P (stage c e u s)"
  unfolding stage_def http_download_def by (intro keeps_rules) simp_all

lemma keeps_safe_swap: "stable P \<Longrightarrow> keeps P (safe_swap e st app)"
  unfolding safe_swap_def Let_def by (intro keeps_rules) simp_all

lemma triple_catch:
  assumes "triple P m (\<lambda>r w. case r of Inl x \<Rightarrow> H x w | Inr a \<Rightarrow> Q (Inr a) w)"
    and "\<And>x. triple (H x) (h x) Q"
  shows "triple P (catch_io m h) Q"
proof (rule tripleI)
  fix w r w'
  assume p: "P w" and b: "catch_io m h w = (r, w')"
  obtain r1 w1 where m: "m w = (r1, w1)" by (cases "m w")
  from tripleD [OF assms(1) p m]
  have c: "case r1 of Inl x \<Rightarrow> H x w1 | Inr a \<Rightarrow> Q (Inr a) w1" .
  show "Q r w'"
  proof (cases r1)
    case (Inl x)
    with b m have "h x w1 = (r, w')" by (simp add: catch_io_def)
    moreover from c Inl have "H x w1" by simp
    ultimately show ?thesis using tripleD [OF assms(2)] by blast
  next
    case (Inr a)
    with b m have "r = Inr a" "w' = w1" by (auto simp add: catch_io_def)
    with c Inr show ?thesis by simp
  qed
qed

lemma triple_finally:
  assumes "triple P m R" and "\<And>r w. R r w \<Longrightarrow> Q r (fin w)"
  shows "triple P (finally_io m fin) Q"
proof (rule tripleI)
  fix w r w'
  assume p: "P w" and b: "finally_io m fin w = (r, w')"
  obtain r1 w1 where m: "m w = (r1, w1)" by (cases "m w")
  with b have "r = r1" "w' = fin w1" by (auto simp add: finally_io_def)
  with tripleD [OF assms(1) p m] assms(2) show "Q r w'" by simp
qed

lemma triple_return: "(\<And>w. P w \<Longrightarrow> Q (Inr a) w) \<Longrightarrow> triple P (return_io a) Q"
  by (simp add: triple_def return_io_def)

lemma triple_raise: "(\<And>w. P w \<Longrightarrow> Q (Inl x) w) \<Longrightarrow> triple P (raise_io x) Q"
  by (simp add: triple_def raise_io_def)

lemma triple_keeps_bind:
  assumes "keeps P m" and "\<And>x w. P w \<Longrightarrow> Q (Inl x) w" and "\<And>a. triple P (f a) Q"
  shows "triple P (bind_io m f) Q"
proof (rule triple_bind [where R = "\<lambda>_. P"])
  show "triple P m (\<lambda>r w. case r of Inl x \<Rightarrow> Q (Inl x) w | Inr a \<Rightarrow> P w)"
  proof (rule tripleI)
    fix w r w'
    assume "P w" "m w = (r, w')"
    with assms(1) have "P w'" by (rule keepsD)
    with assms(2) show "case r of Inl x \<Rightarrow> Q (Inl x) w' | Inr a \<Rightarrow> P w'"
      by (cases r) simp_all
  qed
  show "triple P (f a) Q" for a by (rule assms(3))
qed

lemma keeps_catch: "keeps P m \<Longrightarrow> (\<And>x. keeps P (h x)) \<Longrightarrow> keeps P (catch_io m h)"
proof -
  assume m: "keeps P m" and h: "\<And>x. keeps P (h x)"
  have "triple P m (\<lambda>r w. case r of Inl x \<Rightarrow> P w | Inr a \<Rightarrow> P w)"
  proof (rule tripleI)
    fix w r w'
    assume "P w" "m w = (r, w')"
    with m have "P w'" by (rule keepsD)
    then show "case r of Inl x \<Rightarrow> P w' | Inr a \<Rightarrow> P w'" by (cases r) simp_all
  qed
  moreover have "triple P (h x) (\<lambda>_. P)" for x using h [of x] by (simp add: keeps_def)
  ultimately have "triple P (catch_io m h) (\<lambda>_. P)" by (rule triple_catch)
  then show ?thesis by (simp add: keeps_def)
qed

lemma keeps_finally: "keeps P m \<Longrightarrow> (\<And>w. P w \<Longrightarrow> P (fin w)) \<Longrightarrow> keeps P (finally_io m fin)"
  unfolding keeps_def by (rule triple_finally)

lemma stable_cleanup: "stable P \<Longrightarrow> P w \<Longrightarrow> P (cleanup_tmp e w)"
proof -
  assume s: "stable P" and p: "P w"
  let ?w1 = "w\<lparr>trace := trace w @ [Did (Rmtree (tmp_dir e)) None]\<rparr>"
  from s p have p1: "P ?w1" by (simp add: stable_def)
  have "cleanup_tmp e w = ?w1 \<or> (\<exists>d. cleanup_tmp e w = ?w1\<lparr>dirs := d\<rparr>)"
    by (auto simp add: cleanup_tmp_def Let_def split: option.splits node.splits)
  with s p1 show ?thesis unfolding stable_def by metis
qed

lemma keeps_swap_fallback: "stable P \<Longrightarrow> keeps P (swap_fallback c e x)"
  unfolding swap_fallback_def by (intro keeps_rules) simp_all

lemma keeps_swap_block: "stable P \<Longrightarrow> keeps P (swap_block c e)"
  unfolding swap_block_def
  by (intro keeps_catch keeps_rules keeps_safe_swap keeps_swap_fallback) simp_all

lemma keeps_persist: "stable P \<Longrightarrow> wstable P \<Longrightarrow> keeps P (persist c e vdata tag b)"
  unfolding persist_def by (intro keeps_rules) simp_all


section \<open>From the try block to the whole run\<close>

lemma install_triple:
  assumes a: "triple P (attempt c e vdata tag u s) Q"
    and sq: "\<And>r. stable (Q r)"
    and v: "\<And>x w. Q (Inl x) w \<Longrightarrow> Q (Inr False) w"
  shows "triple P (install c e vdata tag u s) Q"
  unfolding install_def
proof (rule triple_finally [where R = Q])
  show "Q r (cleanup_tmp e w)" if "Q r w" for r w
    using sq that by (rule stable_cleanup)
  show "triple P (catch_io (attempt c e vdata tag u s)
          (\<lambda>x. bind_io (log (MError x)) (\<lambda>_. return_io False))) Q"
  proof (rule triple_catch [where H = "\<lambda>x. Q (Inl x)"])
    show "triple P (attempt c e vdata tag u s)
            (\<lambda>r w. case r of Inl x \<Rightarrow> Q (Inl x) w | Inr a \<Rightarrow> Q (Inr a) w)"
      by (rule triple_weaken [OF a]) (auto split: sum.splits)
    show "triple (Q (Inl x)) (bind_io (log (MError x)) (\<lambda>_. return_io False)) Q" for x
    proof (rule tripleI)
      fix w r w'
      assume q: "Q (Inl x) w"
        and b: "bind_io (log (MError x)) (\<lambda>_. return_io False) w = (r, w')"
      from b have r: "r = Inr False" and w: "w' = w\<lparr>trace := trace w @ [Log (MError x)]\<rparr>"
        by (auto simp add: bind_io_def log_def return_io_def)
      from q have "Q (Inr False) w" by (rule v)
      with sq [of "Inr False"] have "Q (Inr False) (w\<lparr>trace := trace w @ [Log (MError x)]\<rparr>)"
        by (simp add: stable_def)
      with r w show "Q r w'" by simp
    qed
  qed
qed

lemma resolve_triple:
  assumes a: "\<And>u s. triple P (attempt c e vdata tag u s) Q"
    and sp: "stable P"
    and sq: "\<And>r. stable (Q r)"
    and v: "\<And>x w. Q (Inl x) w \<Longrightarrow> Q (Inr False) w"
    and ex: "\<And>x w. P w \<Longrightarrow> Q (Inl x) w"
    and fl: "\<And>w. P w \<Longrightarrow> Q (Inr False) w"
  shows "triple P (resolve c e vdata tag rel) Q"
proof (cases "find_asset (assets rel) (asset_name c)")
  case None
  then show ?thesis by (simp add: resolve_def triple_raise ex)
next
  case (Some a')
  show ?thesis
  proof (cases "dry_run c")
    case True
    have "triple P (bind_io (log (MDryRunDownload (asset_name c))) (\<lambda>_.
            bind_io (if b then log (MDryRunVerify (asset_name c)) else return_io ()) (\<lambda>_.
            return_io False))) Q" for b
      by (intro triple_keeps_bind triple_return keeps_rules sp ex fl)
    with Some True show ?thesis by (simp add: resolve_def Let_def)
  next
    case False
    have inst: "triple P (install c e vdata tag u s) Q" for u s
      by (rule install_triple [OF a sq v])
    have "triple P (bind_io (perform e Mkdtemp eff) (\<lambda>_. install c e vdata tag u s)) Q"
      for eff u s
      by (intro triple_keeps_bind keeps_perform sp ex inst) simp_all
    with Some False show ?thesis by (simp add: resolve_def Let_def)
  qed
qed

lemma evaluate_triple:
  assumes a: "\<And>u s. triple P (attempt c e vdata (tag_or rel ''0.0.0'') u s) Q"
    and sp: "stable P"
    and sq: "\<And>r. stable (Q r)"
    and v: "\<And>x w. Q (Inl x) w \<Longrightarrow> Q (Inr False) w"
    and ex: "\<And>x w. P w \<Longrightarrow> Q (Inl x) w"
    and fl: "\<And>w. P w \<Longrightarrow> Q (Inr False) w"
  shows "triple P (evaluate c e vdata cv rel) Q"
proof -
  have skip: "triple P (bind_io (log m) (\<lambda>_. return_io False)) Q" for m
    by (intro triple_keeps_bind triple_return keeps_log sp ex fl)
  have res: "triple P (resolve c e vdata (tag_or rel ''0.0.0'') rel) Q"
    by (rule resolve_triple [OF a sp sq v ex fl])
  have "triple P (case cv of
           JStr cur \<Rightarrow>
             (let cmp = compare_versions (tag_or rel ''0.0.0'') cur
              in if cmp < 0 \<and> \<not> allow_downgrade c then
                   bind_io (log MRemoteOlder) (\<lambda>_. return_io False)
                 else if cmp = 0 then
                   bind_io (log MUpToDate) (\<lambda>_. return_io False)
                 else resolve c e vdata (tag_or rel ''0.0.0'') rel)
         | _ \<Rightarrow> raise_io (AttributeError ''startswith'')) Q"
    by (cases cv) (simp_all add: Let_def skip res triple_raise ex)
  then show ?thesis
    unfolding evaluate_def Let_def
    by (intro triple_keeps_bind keeps_log sp ex)
qed

lemma run_update_triple:
  assumes a: "\<And>rel u s.
        get_latest_release (api_releases e) (include_prereleases c) = Some rel \<Longrightarrow>
        triple P (attempt c e (dict_of (load_vdata (vfile w))) (tag_or rel ''0.0.0'') u s) Q"
    and sp: "stable P"
    and sq: "\<And>r. stable (Q r)"
    and v: "\<And>x w. Q (Inl x) w \<Longrightarrow> Q (Inr False) w"
    and ex: "\<And>x w. P w \<Longrightarrow> Q (Inl x) w"
    and fl: "\<And>w. P w \<Longrightarrow> Q (Inr False) w"
    and p: "P w"
    and run: "run_update c e w = (r, w')"
  shows "Q r w'"
proof (cases "get_version (load_vdata (vfile w))")
  case (Inl x)
  with run have "r = Inl x" "w' = w" by (auto simp add: run_update_def Let_def)
  with p ex show ?thesis by simp
next
  case (Inr cv)
  let ?vd = "dict_of (load_vdata (vfile w))"
  let ?sel = "get_latest_release (api_releases e) (include_prereleases c)"
  let ?k = "case ?sel of
              None \<Rightarrow> bind_io (log MNoReleases) (\<lambda>_. return_io False)
            | Some rel \<Rightarrow> evaluate c e ?vd cv rel"
  let ?prog = "bind_io (log (MCurrentVersion cv)) (\<lambda>_.
               bind_io (log (MRepo (repo c) (asset_name c))) (\<lambda>_.
               bind_io (perform e HttpGetJson (\<lambda>f. f)) (\<lambda>_. ?k)))"
  have k: "triple P ?k Q"
  proof (cases ?sel)
    case None
    have "triple P (bind_io (log MNoReleases) (\<lambda>_. return_io False)) Q"
      by (intro triple_keeps_bind triple_return keeps_log sp ex fl)
    with None show ?thesis by simp
  next
    case (Some rel)
    have "triple P (evaluate c e ?vd cv rel) Q"
      by (rule evaluate_triple [OF a [OF Some] sp sq v ex fl])
    with Some show ?thesis by simp
  qed
  have t: "triple P ?prog Q"
    by (intro triple_keeps_bind keeps_log keeps_perform sp ex k) simp_all
  from run Inr have m: "?prog w = (r, w')" by (simp add: run_update_def Let_def)
  from tripleD [OF t p m] show ?thesis .
qed

section \<open>Writes of the version file follow the swap\<close>

lemma swap_done_append: "swap_done F A t \<Longrightarrow> swap_done F A (t @ t')"
  by (auto simp add: swap_done_def)

lemma wfs_append:
  assumes "writes_follow_swap F A t" and "is_write ev \<Longrightarrow> swap_done F A t"
  shows "writes_follow_swap F A (t @ [ev])"
  unfolding writes_follow_swap_def
proof (intro allI impI)
  fix pre x post
  assume h: "t @ [ev] = pre @ x # post \<and> is_write x"
  show "swap_done F A pre"
  proof (cases post rule: rev_cases)
    case Nil
    with h have "pre = t" "x = ev" by auto
    with h assms(2) show ?thesis by simp
  next
    case (snoc post' y)
    with h have "t = pre @ x # post'" by simp
    with h assms(1) show ?thesis unfolding writes_follow_swap_def by blast
  qed
qed

lemma stable_update_inv: "stable (update_inv F A v0)"
  unfolding stable_def update_inv_def
  by (auto intro: wfs_append simp add: swap_done_def)

lemma stable_swapped_inv: "stable (swapped_inv F A)"
  unfolding stable_def swapped_inv_def
  by (auto intro: wfs_append simp add: swap_done_def)

lemma wstable_swapped_inv: "wstable (swapped_inv F A)"
  unfolding wstable_def swapped_inv_def
  by (auto intro: wfs_append simp add: swap_done_def)

lemma swapped_inv_update_inv: "swapped_inv F A w \<Longrightarrow> update_inv F A v0 w"
  by (simp add: swapped_inv_def update_inv_def)

lemma triple_bind_mid:
  assumes "triple P m M"
    and "\<And>x w. M (Inl x) w \<Longrightarrow> Q (Inl x) w"
    and "\<And>a. triple (M (Inr a)) (f a) Q"
  shows "triple P (bind_io m f) Q"
proof (rule triple_bind [where R = "\<lambda>a. M (Inr a)"])
  show "triple P m (\<lambda>r w. case r of Inl x \<Rightarrow> Q (Inl x) w | Inr a \<Rightarrow> M (Inr a) w)"
    by (rule triple_weaken [OF assms(1)]) (auto split: sum.splits intro: assms(2))
  show "triple (M (Inr a)) (f a) Q" for a by (rule assms(3))
qed

lemma triple_catch_mid:
  assumes "triple P m M"
    and "\<And>a w. M (Inr a) w \<Longrightarrow> Q (Inr a) w"
    and "\<And>x. triple (M (Inl x)) (h x) Q"
  shows "triple P (catch_io m h) Q"
proof (rule triple_catch [where H = "\<lambda>x. M (Inl x)"])
  show "triple P m (\<lambda>r w. case r of Inl x \<Rightarrow> M (Inl x) w | Inr a \<Rightarrow> Q (Inr a) w)"
    by (rule triple_weaken [OF assms(1)]) (auto split: sum.splits intro: assms(2))
  show "triple (M (Inl x)) (h x) Q" for x by (rule assms(3))
qed

lemma triple_if: "triple P a Q \<Longrightarrow> triple P b Q \<Longrightarrow> triple P (if c then a else b) Q"
  by simp

lemma keeps_triple: "keeps P m \<Longrightarrow> (\<And>r w. P w \<Longrightarrow> Q r w) \<Longrightarrow> triple P m Q"
proof -
  assume k: "keeps P m" and q: "\<And>r w. P w \<Longrightarrow> Q r w"
  from k have "triple P m (\<lambda>_. P)" by (simp add: keeps_def)
  then show ?thesis by (rule triple_weaken) (simp_all add: q)
qed

lemma swap_post_Inl [simp]: "swap_post F A v0 (Inl x) w = update_inv F A v0 w"
  by (simp add: swap_post_def)

lemma swap_post_Inr [simp]: "swap_post F A v0 (Inr a) w = swapped_inv F A w"
  by (simp add: swap_post_def)

lemma perform_swap_post:
  assumes c: "c = OsRename F A \<or> c = ShutilMove F A"
  shows "triple (update_inv F A v0) (perform e c eff) (swap_post F A v0)"
proof (rule tripleI)
  fix w r w'
  assume i: "update_inv F A v0 w" and m: "perform e c eff w = (r, w')"
  let ?r = "fault e (length (trace w)) c"
  let ?w1 = "w\<lparr>trace := trace w @ [Did c ?r]\<rparr>"
  from c have nw: "\<not> is_write (Did c ?r)" by auto
  show "swap_post F A v0 r w'"
  proof (cases ?r)
    case (Some x)
    with m have "r = Inl x" "w' = ?w1" by (auto simp add: perform_def Let_def)
    moreover from i nw have "update_inv F A v0 ?w1"
      using stable_update_inv [of F A v0] unfolding stable_def by blast
    ultimately show ?thesis by simp
  next
    case None
    with m have r: "r = Inr ()" and w: "w' = ?w1\<lparr>dirs := eff (dirs ?w1)\<rparr>"
      by (auto simp add: perform_def Let_def)
    from i nw have "writes_follow_swap F A (trace w @ [Did c ?r])"
      by (auto simp add: update_inv_def intro: wfs_append)
    moreover from c None have "swap_done F A (trace w @ [Did c ?r])"
      by (auto simp add: swap_done_def)
    ultimately have "swapped_inv F A w'" using w by (simp add: swapped_inv_def)
    with r show ?thesis by simp
  qed
qed

lemma swap_last_step:
  assumes c: "c = OsRename F A \<or> c = ShutilMove F A"
  shows "triple (update_inv F A v0) (bind_io (perform e c eff) (\<lambda>_. return_io b))
           (swap_post F A v0)"
proof (rule triple_bind_mid [OF perform_swap_post [OF c]])
  show "swap_post F A v0 (Inl x) w \<Longrightarrow> swap_post F A v0 (Inl x) w" for x :: exn and w
    by simp
  show "triple (swap_post F A v0 (Inr a)) (return_io b) (swap_post F A v0)" for a :: unit
    by (rule triple_return) simp
qed

lemma safe_swap_post:
  "triple (update_inv F A v0) (safe_swap e F A) (swap_post F A v0)"
  unfolding safe_swap_def Let_def
  apply (rule triple_keeps_bind, intro keeps_rules stable_update_inv, simp)
  apply (rule triple_keeps_bind, intro keeps_rules stable_update_inv, simp)
  apply (rule triple_keeps_bind, intro keeps_rules stable_update_inv, simp)
  apply (rule triple_keeps_bind, intro keeps_rules stable_update_inv, simp)
  apply (rule triple_keeps_bind, (intro keeps_rules stable_update_inv; simp), simp)
  apply (rule swap_last_step, simp)
  done

lemma swap_fallback_post:
  "triple (update_inv (final_stage e) (app_dir c) v0) (swap_fallback c e x)
     (swap_post (final_stage e) (app_dir c) v0)"
  unfolding swap_fallback_def
  apply (rule triple_keeps_bind, intro keeps_rules stable_update_inv, simp)
  apply (rule triple_keeps_bind, intro keeps_rules stable_update_inv, simp)
  apply (rule triple_if)
   apply (rule triple_keeps_bind, intro keeps_rules stable_update_inv, simp)
   apply (rule triple_keeps_bind, (intro keeps_rules stable_update_inv; simp), simp)
   apply (rule swap_last_step, simp)
  apply (rule triple_raise, simp)
  done

lemma swap_block_post:
  "triple (update_inv (final_stage e) (app_dir c) v0) (swap_block c e)
     (swap_post (final_stage e) (app_dir c) v0)"
  unfolding swap_block_def
proof (rule triple_catch_mid [where M = "swap_post (final_stage e) (app_dir c) v0"])
  let ?I = "update_inv (final_stage e) (app_dir c) v0"
  let ?Q = "swap_post (final_stage e) (app_dir c) v0"
  have inner: "triple ?I (bind_io (safe_swap e (final_stage e) (app_dir c)) (\<lambda>b. return_io (Some b))) ?Q"
  proof (rule triple_bind_mid [OF safe_swap_post])
    show "swap_post (final_stage e) (app_dir c) v0 (Inl x) w \<Longrightarrow> ?Q (Inl x) w"
      for x :: exn and w by simp
    show "triple (swap_post (final_stage e) (app_dir c) v0 (Inr a)) (return_io (Some a)) ?Q"
      for a :: string by (rule triple_return) simp
  qed
  show "triple ?I (bind_io (log MSwapping) (\<lambda>_.
        bind_io (safe_swap e (final_stage e) (app_dir c)) (\<lambda>b. return_io (Some b)))) ?Q"
    by (rule triple_keeps_bind [OF keeps_log [OF stable_update_inv]]) (simp, rule inner)
  show "?Q (Inr a) w \<Longrightarrow> ?Q (Inr a) w" for a :: "string option" and w by simp
  show "triple (?Q (Inl x)) (if is_OSError x then swap_fallback c e x else raise_io x) ?Q"
    for x
  proof -
    have "triple ?I (if is_OSError x then swap_fallback c e x else raise_io x) ?Q"
      by (intro triple_if swap_fallback_post triple_raise) simp
    then show ?thesis by (rule triple_weaken) simp_all
  qed
qed

lemma attempt_inv:
  "triple (update_inv (final_stage e) (app_dir c) v0) (attempt c e vdata tag u s)
     (\<lambda>_. update_inv (final_stage e) (app_dir c) v0)"
  unfolding attempt_def
proof (rule triple_keeps_bind)
  let ?I = "update_inv (final_stage e) (app_dir c) v0"
  show "keeps ?I (stage c e u s)" by (rule keeps_stage [OF stable_update_inv])
  show "?I w \<Longrightarrow> ?I w" for w .
  show "triple ?I (bind_io (swap_block c e) (persist c e vdata tag)) (\<lambda>_. ?I)" for a :: unit
  proof (rule triple_bind_mid [OF swap_block_post])
    show "swap_post (final_stage e) (app_dir c) v0 (Inl x) w \<Longrightarrow> ?I w" for x :: exn and w
      by simp
    show "triple (swap_post (final_stage e) (app_dir c) v0 (Inr b)) (persist c e vdata tag b)
            (\<lambda>_. ?I)" for b
    proof -
      have "keeps (swapped_inv (final_stage e) (app_dir c)) (persist c e vdata tag b)"
        by (rule keeps_persist [OF stable_swapped_inv wstable_swapped_inv])
      then have "triple (swapped_inv (final_stage e) (app_dir c)) (persist c e vdata tag b)
            (\<lambda>_. ?I)"
        by (rule keeps_triple) (rule swapped_inv_update_inv)
      then show ?thesis by (rule triple_weaken) simp_all
    qed
  qed
qed

text \<open>
  Claim C1: in every run of \<open>run_update\<close>, each attempt to write the version file comes
  after the staged tree has reached the live path (the rename of \<open>safe_swap\<close> or the move
  of the fallback returned); and on every path on which that did not happen, whether a
  skip, a dry run or a failure, the version file is what it was before the run.
\<close>

theorem version_written_only_after_swap:
  assumes "trace w = []" and "run_update c e w = (r, w')"
  shows "(\<forall>pre ev post. trace w' = pre @ ev # post \<and> is_write ev \<longrightarrow>
            swap_done (final_stage e) (app_dir c) pre) \<and>
         (\<not> swap_done (final_stage e) (app_dir c) (trace w') \<longrightarrow> vfile w' = vfile w)"
proof -
  let ?I = "update_inv (final_stage e) (app_dir c) (vfile w)"
  have i: "?I w" using assms(1) by (simp add: update_inv_def writes_follow_swap_def)
  have "?I w'"
  proof (rule run_update_triple [where P = ?I and Q = "\<lambda>_. ?I", OF _ _ _ _ _ _ i assms(2)])
    show "triple ?I (attempt c e (dict_of (load_vdata (vfile w))) (tag_or rel ''0.0.0'') u s)
            (\<lambda>_. ?I)" for rel u s
      by (rule attempt_inv)
  qed (simp_all add: stable_update_inv)
  then show ?thesis by (simp add: update_inv_def writes_follow_swap_def)
qed

section \<open>The version file after a successful update\<close>

lemma triple_top: "triple P m (\<lambda>_ _. True)"
  by (simp add: triple_def split: prod.splits)

lemma stable_vfile: "stable (\<lambda>w. vfile w = v)"
  by (simp add: stable_def)

lemma write_json_atomic_post:
  "triple (\<lambda>_. True) (write_json_atomic e p j)
     (\<lambda>r w. case r of Inl x \<Rightarrow> True | Inr a \<Rightarrow> vfile w = Some j)"
  by (auto simp add: triple_def write_json_atomic_def Let_def split: option.splits)

lemma after_write_keeps:
  "keeps (\<lambda>w. vfile w = v)
     (bind_io (log (MUpdated (version_file c) (lstrip_v tag))) (\<lambda>_.
      bind_io (case b of
           None \<Rightarrow> return_io ()
         | Some b \<Rightarrow>
            if b = [] then return_io ()
            else bind_io (path_exists b) (\<lambda>be.
                 if be then rmtree_ignore e b else return_io ())) (\<lambda>_.
      bind_io (case restart_cmd c of
           None \<Rightarrow> return_io ()
         | Some cmd \<Rightarrow>
            if cmd = [] then return_io ()
            else bind_io (log (MRestarting cmd)) (\<lambda>_.
                 perform e (Restart cmd) (\<lambda>f. f))) (\<lambda>_.
      return_io True))))"
  by (intro keeps_rules stable_vfile) simp_all

lemma persist_writes:
  "triple (\<lambda>_. True) (persist c e vdata tag b)
     (\<lambda>r w. r = Inr True \<longrightarrow> vfile w = Some (JObj (new_vdata vdata tag)))"
  unfolding persist_def
proof (rule triple_bind_mid [OF write_json_atomic_post])
  let ?V = "\<lambda>w. vfile w = Some (JObj (new_vdata vdata tag))"
  let ?Q = "\<lambda>r w. r = Inr True \<longrightarrow> vfile w = Some (JObj (new_vdata vdata tag))"
  show "?Q (Inl x) w" for x :: exn and w by simp
  have "triple ?V m ?Q" if "keeps ?V m" for m :: "bool io"
    using that by (rule keeps_triple) simp
  from this [OF after_write_keeps]
  show "triple (\<lambda>w. case Inr a of Inl x \<Rightarrow> True
                     | Inr a \<Rightarrow> vfile w = Some (JObj (new_vdata vdata tag)))
          (bind_io (log (MUpdated (version_file c) (lstrip_v tag))) (\<lambda>_.
           bind_io (case b of
                None \<Rightarrow> return_io ()
              | Some b \<Rightarrow>
                 if b = [] then return_io ()
                 else bind_io (path_exists b) (\<lambda>be.
                      if be then rmtree_ignore e b else return_io ())) (\<lambda>_.
           bind_io (case restart_cmd c of
                None \<Rightarrow> return_io ()
              | Some cmd \<Rightarrow>
                 if cmd = [] then return_io ()
                 else bind_io (log (MRestarting cmd)) (\<lambda>_.
                      perform e (Restart cmd) (\<lambda>f. f))) (\<lambda>_.
           return_io True)))) ?Q" for a :: unit
    by (rule triple_weaken) simp_all
qed

lemma attempt_writes:
  "triple (\<lambda>_. True) (attempt c e vdata tag u s)
     (\<lambda>r w. r = Inr True \<longrightarrow> vfile w = Some (JObj (new_vdata vdata tag)))"
  unfolding attempt_def
proof (rule triple_bind_mid [where M = "\<lambda>_ _. True", OF triple_top])
  let ?Q = "\<lambda>r w. r = Inr True \<longrightarrow> vfile w = Some (JObj (new_vdata vdata tag))"
  show "?Q (Inl x) w" for x :: exn and w by simp
  show "triple (\<lambda>_. True) (bind_io (swap_block c e) (persist c e vdata tag)) ?Q" for a :: unit
  proof (rule triple_bind_mid [where M = "\<lambda>_ _. True", OF triple_top])
    show "?Q (Inl x) w" for x :: exn and w by simp
    show "triple (\<lambda>_. True) (persist c e vdata tag b) ?Q" for b by (rule persist_writes)
  qed
qed

lemma dict_of_load_vdata: "dict_of (load_vdata (Some (JObj kvs))) = kvs"
  by (cases kvs) (simp_all add: load_vdata_def)

lemma map_of_new_vdata:
  "map_of (new_vdata kvs tag) = (map_of kvs)(''version'' \<mapsto> JStr (lstrip_v tag))"
  by (simp add: new_vdata_def update_conv')

text \<open>
  Claim C9: when the version file held a record before the run and \<open>run_update\<close> returns
  \<open>True\<close>, the file afterwards holds a record whose \<open>version\<close> field is the tag of the
  chosen release without its leading \<open>v\<close>s, and every other field reads as it did before.
\<close>

theorem update_merges_version:
  assumes "vfile w = Some (JObj kvs)" and "run_update c e w = (Inr True, w')"
  shows "\<exists>rel kvs'.
           get_latest_release (api_releases e) (include_prereleases c) = Some rel \<and>
           vfile w' = Some (JObj kvs') \<and>
           map_of kvs' ''version'' = Some (JStr (lstrip_v (tag_or rel ''0.0.0''))) \<and>
           (\<forall>k. k \<noteq> ''version'' \<longrightarrow> map_of kvs' k = map_of kvs k)"
proof -
  let ?sel = "get_latest_release (api_releases e) (include_prereleases c)"
  let ?Q = "\<lambda>(r :: exn + bool) w'. r = Inr True \<longrightarrow>
      (\<exists>rel. ?sel = Some rel \<and> vfile w' = Some (JObj (new_vdata kvs (tag_or rel ''0.0.0''))))"
  have vd: "dict_of (load_vdata (vfile w)) = kvs"
    using assms(1) by (simp add: dict_of_load_vdata)
  have "?Q (Inr True) w'"
  proof (rule run_update_triple [where P = "\<lambda>_. True" and Q = ?Q and r = "Inr True"])
    show "run_update c e w = (Inr True, w')" by (rule assms(2))
    show "triple (\<lambda>_. True)
            (attempt c e (dict_of (load_vdata (vfile w))) (tag_or rel ''0.0.0'') u s) ?Q"
      if "?sel = Some rel" for rel u s
      by (rule triple_weaken [OF attempt_writes]) (simp_all add: vd that)
    show "stable (?Q r)" for r by (simp add: stable_def)
  qed (simp_all add: stable_def)
  then obtain rel where sel: "?sel = Some rel"
    and v: "vfile w' = Some (JObj (new_vdata kvs (tag_or rel ''0.0.0'')))" by blast
  have "map_of (new_vdata kvs (tag_or rel ''0.0.0'')) ''version''
          = Some (JStr (lstrip_v (tag_or rel ''0.0.0'')))"
    by (simp add: map_of_new_vdata)
  moreover have "\<forall>k. k \<noteq> ''version'' \<longrightarrow>
      map_of (new_vdata kvs (tag_or rel ''0.0.0'')) k = map_of kvs k"
    by (simp add: map_of_new_vdata)
  ultimately show ?thesis using sel v by blast
qed

lemmas run_defs = run_update_def evaluate_def resolve_def install_def attempt_def stage_def
  swap_block_def swap_fallback_def safe_swap_def persist_def cleanup_tmp_def http_download_def
  bind_io_def catch_io_def finally_io_def return_io_def raise_io_def log_def perform_def
  rmtree_ignore_def path_exists_def write_json_atomic_def rename_eff_def move_eff_def
  zip_path_def sha_path_def staging_dir_def final_stage_def path_join_def url_given_def
  extracted_root_def load_vdata_def get_version_def new_vdata_def lstrip_v_def
  get_latest_release_def candidates_def sort_desc_def sort_key_of_def tag_or_def
  compare_versions_def not_found_msg_def

lemmas demo_defs = demo_config_def demo_env_def demo_world_def release_defs

lemma demo_run:
  "run_update demo_config demo_env demo_world =
    (Inr True,
     \<lparr>dirs = (\<lambda>_. None)(''/opt/app'' := Some (Dir [(''main.py'', File ''new'')])),
      vfile = Some (JObj [(''version'', JStr ''1.2.0''), (''channel'', JStr ''stable'')]),
      trace =
        [Log (MCurrentVersion (JStr ''1.0.0'')), Log (MRepo ''o/r'' ''demo-linux-x64.zip''),
         Did HttpGetJson None, Log (MLatestTag ''v1.2.0'' False), Did Mkdtemp None,
         Log (MDownloading ''/tmp/upd-1/demo-linux-x64.zip''),
         Did (HttpDownload ''https://example.org/demo.zip'' ''/tmp/upd-1/demo-linux-x64.zip'')
           None,
         Log MNoChecksum, Did (Makedirs ''/tmp/upd-1/staging'') None,
         Log (MExtracting ''/tmp/upd-1/staging''),
         Did (UnzipTo ''/tmp/upd-1/demo-linux-x64.zip'' ''/tmp/upd-1/staging'') None,
         Did (Copytree ''/tmp/upd-1/final'') None, Log MSwapping,
         Log (MCreatingBackup ''/opt/app.backup-1''),
         Did (OsRename ''/opt/app'' ''/opt/app.backup-1'') None,
         Did (OsRename ''/tmp/upd-1/final'' ''/opt/app'') None,
         Did (WriteJsonAtomic ''/opt/version.json''
               (JObj [(''version'', JStr ''1.2.0''), (''channel'', JStr ''stable'')])) None,
         Log (MUpdated ''/opt/version.json'' ''1.2.0''),
         Did (Rmtree ''/opt/app.backup-1'') None, Did (Rmtree ''/tmp/upd-1'') None]\<rparr>)"
  by (simp add: run_defs demo_defs semver_defs Let_def fun_eq_iff)

section \<open>The paths of a run\<close>

lemma evaluate_unfold:
  "evaluate c e vd (JStr cur) rel w =
     (let tag = tag_or rel ''0.0.0'';
          w1 = w\<lparr>trace := trace w @ [Log (MLatestTag tag (prerelease rel))]\<rparr>
      in if compare_versions tag cur < 0 \<and> \<not> allow_downgrade c then
           (Inr False, w1\<lparr>trace := trace w1 @ [Log MRemoteOlder]\<rparr>)
         else if compare_versions tag cur = 0 then
           (Inr False, w1\<lparr>trace := trace w1 @ [Log MUpToDate]\<rparr>)
         else resolve c e vd tag rel w1)"
  by (simp add: evaluate_def bind_io_def log_def return_io_def Let_def)

lemma resolve_unfold:
  "resolve c e vd tag rel w =
     (case find_asset (assets rel) (asset_name c) of
        None \<Rightarrow> (Inl (FileNotFoundError (not_found_msg (asset_name c) (assets rel))), w)
      | Some a \<Rightarrow>
         (let sha_url = map_option browser_download_url
                          (find_asset (assets rel) (asset_name c @ ''.sha256''))
          in if dry_run c then
               (Inr False,
                w\<lparr>trace := trace w @ Log (MDryRunDownload (asset_name c)) #
                   (if url_given sha_url then [Log (MDryRunVerify (asset_name c))] else [])\<rparr>)
             else
               (case fault e (length (trace w)) Mkdtemp of
                  Some x \<Rightarrow> (Inl x, w\<lparr>trace := trace w @ [Did Mkdtemp (Some x)]\<rparr>)
                | None \<Rightarrow>
                   install c e vd tag (browser_download_url a) sha_url
                     (w\<lparr>trace := trace w @ [Did Mkdtemp None],
                        dirs := (dirs w)(tmp_dir e := Some (Dir []))\<rparr>))))"
  by (simp add: resolve_def bind_io_def log_def return_io_def raise_io_def perform_def Let_def
      split: option.splits)

lemma prelude_unfold:
  assumes "trace w = []" and "get_version (load_vdata (vfile w)) = Inr cv"
  shows "run_update c e w =
     (case fault e 2 HttpGetJson of
        Some x \<Rightarrow>
          (Inl x, w\<lparr>trace := [Log (MCurrentVersion cv), Log (MRepo (repo c) (asset_name c)),
                              Did HttpGetJson (Some x)]\<rparr>)
      | None \<Rightarrow>
         (case get_latest_release (api_releases e) (include_prereleases c) of
            None \<Rightarrow>
              (Inr False,
               w\<lparr>trace := [Log (MCurrentVersion cv), Log (MRepo (repo c) (asset_name c)),
                            Did HttpGetJson None, Log MNoReleases]\<rparr>)
          | Some rel \<Rightarrow>
              evaluate c e (dict_of (load_vdata (vfile w))) cv rel
                (w\<lparr>trace := [Log (MCurrentVersion cv), Log (MRepo (repo c) (asset_name c)),
                             Did HttpGetJson None]\<rparr>)))"
  using assms
  by (simp add: run_update_def bind_io_def log_def return_io_def perform_def Let_def
      numeral_2_eq_2 split: option.splits)

lemma install_last:
  "install c e vd tag u s w = (r, w') \<Longrightarrow>
     trace w' \<noteq> [] \<and> last (trace w') = Did (Rmtree (tmp_dir e)) None"
  by (auto simp add: install_def finally_io_def cleanup_tmp_def Let_def
      split: prod.splits option.splits node.splits)

lemma stable_event: "stable (\<lambda>w. ev \<in> set (trace w))"
  by (simp add: stable_def)

lemma wstable_event: "wstable (\<lambda>w. ev \<in> set (trace w))"
  by (simp add: wstable_def)


lemma stable_downloads: "stable (\<lambda>w. downloads (trace w))"
  by (simp add: stable_def downloads_def)

lemma wstable_downloads: "wstable (\<lambda>w. downloads (trace w))"
  by (simp add: wstable_def downloads_def)

lemma log_returns:
  "triple P (log m) (\<lambda>r w. case r of Inl x \<Rightarrow> False | Inr a \<Rightarrow> True)"
  by (simp add: triple_def log_def)

lemma http_download_downloads:
  "triple P (http_download e u d) (\<lambda>_ w. downloads (trace w))"
  by (auto simp add: triple_def http_download_def bind_io_def perform_def return_io_def
      downloads_def Let_def split: option.splits)

lemma keeps_http_download: "stable P \<Longrightarrow> keeps P (http_download e u d)"
  unfolding http_download_def by (intro keeps_rules) simp_all

lemma stage_downloads: "triple (\<lambda>_. True) (stage c e u s) (\<lambda>_ w. downloads (trace w))"
  unfolding stage_def
  apply (rule triple_bind_mid [OF log_returns])
   apply simp
  apply (rule triple_bind_mid [OF http_download_downloads])
   apply simp
  apply (fold keeps_def)
  apply (intro keeps_rules keeps_http_download stable_downloads; simp)
  done

lemma attempt_downloads:
  "triple (\<lambda>_. True) (attempt c e vd tag u s) (\<lambda>_ w. downloads (trace w))"
  unfolding attempt_def
  apply (rule triple_bind_mid [OF stage_downloads])
   apply simp
  apply (fold keeps_def)
  apply (intro keeps_bind keeps_swap_block keeps_persist stable_downloads wstable_downloads)
  done

lemma install_downloads:
  assumes "install c e vd tag u s w = (r, w')"
  shows "downloads (trace w')"
proof -
  have "triple (\<lambda>_. True) (install c e vd tag u s) (\<lambda>_ w. downloads (trace w))"
    by (rule install_triple [OF attempt_downloads]) (simp_all add: stable_downloads)
  from tripleD [OF this _ assms] show ?thesis by simp
qed



lemma stage_first_download:
  "triple (\<lambda>w. length (trace w) = n) (stage c e u s)
     (\<lambda>_ w. Did (HttpDownload u (zip_path c e))
               (fault e (Suc n) (HttpDownload u (zip_path c e))) \<in> set (trace w))"
  unfolding stage_def
  apply (rule triple_bind_mid [where M = "\<lambda>r w. \<not> isl r \<and> length (trace w) = Suc n"])
    apply (simp add: triple_def log_def)
   apply simp
  apply (rule triple_bind_mid [where M = "\<lambda>_ w. Did (HttpDownload u (zip_path c e))
               (fault e (Suc n) (HttpDownload u (zip_path c e))) \<in> set (trace w)"])
    apply (auto simp add: triple_def http_download_def bind_io_def perform_def return_io_def
      Let_def split: option.splits)[1]
   apply simp
  apply (fold keeps_def)
  apply (intro keeps_rules keeps_http_download stable_event; simp)
  done

lemma install_first_download:
  assumes "install c e vd tag u s w = (r, w')"
  shows "Did (HttpDownload u (zip_path c e))
           (fault e (Suc (length (trace w))) (HttpDownload u (zip_path c e))) \<in> set (trace w')"
proof -
  let ?E = "\<lambda>w'. Did (HttpDownload u (zip_path c e))
           (fault e (Suc (length (trace w))) (HttpDownload u (zip_path c e))) \<in> set (trace w')"
  let ?P = "\<lambda>v. length (trace v) = length (trace w)"
  have "triple ?P (attempt c e vd tag u s) (\<lambda>_. ?E)"
    unfolding attempt_def
    apply (rule triple_bind_mid [OF stage_first_download])
     apply simp
    apply (fold keeps_def)
    apply (intro keeps_bind keeps_swap_block keeps_persist stable_event wstable_event)
    done
  then have "triple ?P (install c e vd tag u s) (\<lambda>_. ?E)"
    by (rule install_triple) (simp_all add: stable_event)
  from tripleD [OF this _ assms] show ?thesis by simp
qed

lemma resolve_outcome:
  assumes run: "resolve c e vd tag rel w = (r, w')"
    and ns: "\<not> skipped (trace w)" and nd: "\<not> downloads (trace w)"
  shows "\<not> skipped (trace w') \<and>
         (downloads (trace w') \<longleftrightarrow>
            find_asset (assets rel) (asset_name c) \<noteq> None \<and> \<not> dry_run c \<and>
            fault e (length (trace w)) Mkdtemp = None) \<and>
         (\<forall>a. find_asset (assets rel) (asset_name c) = Some a \<and> \<not> dry_run c \<and>
              fault e (length (trace w)) Mkdtemp = None \<longrightarrow>
              Did (HttpDownload (browser_download_url a) (zip_path c e))
                (fault e (Suc (Suc (length (trace w))))
                   (HttpDownload (browser_download_url a) (zip_path c e))) \<in> set (trace w')) \<and>
         (find_asset (assets rel) (asset_name c) = None \<longrightarrow>
            r = Inl (FileNotFoundError (not_found_msg (asset_name c) (assets rel))) \<and> w' = w)"
proof (cases "find_asset (assets rel) (asset_name c)")
  case None
  with run have "r = Inl (FileNotFoundError (not_found_msg (asset_name c) (assets rel)))"
    and "w' = w" by (auto simp add: resolve_unfold)
  with None ns nd show ?thesis by simp
next
  case (Some a)
  note found = this
  show ?thesis
  proof (cases "dry_run c")
    case True
    with found run ns nd show ?thesis
      by (auto simp add: resolve_unfold Let_def skipped_def downloads_def split: if_splits)
  next
    case False
    show ?thesis
    proof (cases "fault e (length (trace w)) Mkdtemp")
      case (Some x)
      with found False run have "trace w' = trace w @ [Did Mkdtemp (Some x)]"
        by (auto simp add: resolve_unfold Let_def)
      with found False nd Some show ?thesis
        by (auto simp add: skipped_def downloads_def)
    next
      case None
      let ?w5 = "w\<lparr>trace := trace w @ [Did Mkdtemp None],
                    dirs := (dirs w)(tmp_dir e := Some (Dir []))\<rparr>"
      from None found False run
      obtain s where i: "install c e vd tag (browser_download_url a) s ?w5 = (r, w')"
        by (auto simp add: resolve_unfold Let_def)
      from install_last [OF i] have "\<not> skipped (trace w')" by (simp add: skipped_def)
      moreover from install_downloads [OF i] have "downloads (trace w')" .
      moreover from install_first_download [OF i]
      have "Did (HttpDownload (browser_download_url a) (zip_path c e))
                (fault e (Suc (Suc (length (trace w))))
                   (HttpDownload (browser_download_url a) (zip_path c e))) \<in> set (trace w')"
        by simp
      ultimately show ?thesis using found False None by simp
    qed
  qed
qed

lemma run_paths:
  assumes t: "trace w = []" and gv: "get_version (load_vdata (vfile w)) = Inr (JStr cur)"
    and ok: "fault e 2 HttpGetJson = None"
    and sel: "get_latest_release (api_releases e) (include_prereleases c) = Some rel"
  shows "run_update c e w =
     (let tag = tag_or rel ''0.0.0'';
          w4 = w\<lparr>trace := [Log (MCurrentVersion (JStr cur)),
                              Log (MRepo (repo c) (asset_name c)),
                              Did HttpGetJson None, Log (MLatestTag tag (prerelease rel))]\<rparr>
      in if compare_versions tag cur < 0 \<and> \<not> allow_downgrade c then
           (Inr False, w4\<lparr>trace := trace w4 @ [Log MRemoteOlder]\<rparr>)
         else if compare_versions tag cur = 0 then
           (Inr False, w4\<lparr>trace := trace w4 @ [Log MUpToDate]\<rparr>)
         else resolve c e (dict_of (load_vdata (vfile w))) tag rel w4)"
  by (simp add: prelude_unfold [OF t gv] ok sel evaluate_unfold Let_def)

lemma run_no_release:
  assumes t: "trace w = []" and gv: "get_version (load_vdata (vfile w)) = Inr cv"
    and ok: "fault e 2 HttpGetJson = None"
    and sel: "get_latest_release (api_releases e) (include_prereleases c) = None"
  shows "run_update c e w =
     (Inr False, w\<lparr>trace := [Log (MCurrentVersion cv), Log (MRepo (repo c) (asset_name c)),
                               Did HttpGetJson None, Log MNoReleases]\<rparr>)"
  by (simp add: prelude_unfold [OF t gv] ok sel)

text \<open>
  Claim C4, amended: when the release query raises nothing and the local version is a
  string, \<open>run_update\<close> ends at the evaluation stage exactly when there is no candidate
  release, or the candidate compares equal to the local version (whatever
  \<open>allow_downgrade\<close> is), or it compares older and \<open>allow_downgrade\<close> is not set; it
  then returns \<open>False\<close> having downloaded nothing and changed neither the version file nor
  the directories. In every other case it goes on to asset resolution, and from there it
  downloads exactly when the asset is present, the run is no dry run and making the
  temporary directory raises nothing; what it then downloads first is the asset, from its
  download address to its place in the temporary directory.
\<close>

theorem skip_exactly_at_evaluation:
  assumes t: "trace w = []" and run: "run_update c e w = (r, w')"
    and api: "fault e 2 HttpGetJson = None"
    and gv: "get_version (load_vdata (vfile w)) = Inr (JStr cur)"
  shows "(skipped (trace w') \<longleftrightarrow>
            (case get_latest_release (api_releases e) (include_prereleases c) of
               None \<Rightarrow> True
             | Some rel \<Rightarrow>
                 compare_versions (tag_or rel ''0.0.0'') cur = 0 \<or>
                 (compare_versions (tag_or rel ''0.0.0'') cur < 0 \<and> \<not> allow_downgrade c))) \<and>
         (skipped (trace w') \<longrightarrow>
            r = Inr False \<and> \<not> downloads (trace w') \<and> vfile w' = vfile w \<and> dirs w' = dirs w) \<and>
         (\<not> skipped (trace w') \<longrightarrow>
            (downloads (trace w') \<longleftrightarrow>
               (\<exists>rel. get_latest_release (api_releases e) (include_prereleases c) = Some rel \<and>
                      find_asset (assets rel) (asset_name c) \<noteq> None) \<and>
               \<not> dry_run c \<and> fault e 4 Mkdtemp = None)) \<and>
         (\<forall>rel a. \<not> skipped (trace w') \<and>
              get_latest_release (api_releases e) (include_prereleases c) = Some rel \<and>
              find_asset (assets rel) (asset_name c) = Some a \<and>
              \<not> dry_run c \<and> fault e 4 Mkdtemp = None \<longrightarrow>
              Did (HttpDownload (browser_download_url a) (zip_path c e))
                (fault e 6 (HttpDownload (browser_download_url a) (zip_path c e)))
                \<in> set (trace w'))"
proof -
  note ok = api
  show ?thesis
  proof (cases "get_latest_release (api_releases e) (include_prereleases c)")
    case None
    from run run_no_release [OF t gv ok None]
    have "r = Inr False"
      and "w' = w\<lparr>trace := [Log (MCurrentVersion (JStr cur)),
                   Log (MRepo (repo c) (asset_name c)), Did HttpGetJson None,
                   Log MNoReleases]\<rparr>" by simp_all
    with None show ?thesis by (simp add: skipped_def downloads_def)
  next
    case (Some rel)
    let ?tag = "tag_or rel ''0.0.0''"
    let ?w4 = "w\<lparr>trace := [Log (MCurrentVersion (JStr cur)),
                              Log (MRepo (repo c) (asset_name c)),
                              Did HttpGetJson None, Log (MLatestTag ?tag (prerelease rel))]\<rparr>"
    note paths = run_paths [OF t gv ok Some]
    consider (older) "compare_versions ?tag cur < 0 \<and> \<not> allow_downgrade c"
      | (same) "\<not> (compare_versions ?tag cur < 0 \<and> \<not> allow_downgrade c)"
          "compare_versions ?tag cur = 0"
      | (go) "\<not> (compare_versions ?tag cur < 0 \<and> \<not> allow_downgrade c)"
          "compare_versions ?tag cur \<noteq> 0"
      by blast
    then show ?thesis
    proof cases
      case older
      with run paths have "r = Inr False"
        and "w' = ?w4\<lparr>trace := trace ?w4 @ [Log MRemoteOlder]\<rparr>" by (simp_all add: Let_def)
      with Some older show ?thesis by (simp add: skipped_def downloads_def)
    next
      case same
      with run paths have "r = Inr False"
        and "w' = ?w4\<lparr>trace := trace ?w4 @ [Log MUpToDate]\<rparr>" by (simp_all add: Let_def)
      with Some same show ?thesis by (simp add: skipped_def downloads_def)
    next
      case go
      with run paths
      have res: "resolve c e (dict_of (load_vdata (vfile w))) ?tag rel ?w4 = (r, w')"
        by (simp add: Let_def)
      have l4: "length (trace ?w4) = 4" by simp
      have pre: "\<not> skipped (trace ?w4)" "\<not> downloads (trace ?w4)"
        by (simp_all add: skipped_def downloads_def)
      note out = resolve_outcome [OF res pre, unfolded l4]
      have six: "Suc (Suc 4) = 6" by simp
      from out have
        "\<not> skipped (trace w')" and
        "downloads (trace w') \<longleftrightarrow>
            find_asset (assets rel) (asset_name c) \<noteq> None \<and> \<not> dry_run c \<and>
            fault e 4 Mkdtemp = None" and
        "\<forall>a. find_asset (assets rel) (asset_name c) = Some a \<and> \<not> dry_run c \<and>
              fault e 4 Mkdtemp = None \<longrightarrow>
              Did (HttpDownload (browser_download_url a) (zip_path c e))
                (fault e 6 (HttpDownload (browser_download_url a) (zip_path c e)))
                \<in> set (trace w')"
        unfolding six by blast+
      with Some go show ?thesis by auto
    qed
  qed
qed


section \<open>A run in which nothing fails\<close>























section \<open>Rollback\<close>





section \<open>Runs on the concrete inputs\<close>

lemma dry_run_eval:
  "run_update (demo_config\<lparr>dry_run := True\<rparr>) demo_env demo_world =
    (Inr False,
     demo_world\<lparr>trace :=
       [Log (MCurrentVersion (JStr ''1.0.0'')), Log (MRepo ''o/r'' ''demo-linux-x64.zip''),
        Did HttpGetJson None, Log (MLatestTag ''v1.2.0'' False),
        Log (MDryRunDownload ''demo-linux-x64.zip'')]\<rparr>)"
  by (simp add: run_defs demo_defs semver_defs Let_def)



lemma demo_select:
  "get_latest_release (api_releases demo_env) (include_prereleases demo_config) = Some demo_release"
  by (simp add: get_latest_release_def candidates_def sort_desc_def demo_defs)

lemma demo_compare: "compare_versions (tag_or demo_release ''0.0.0'') ''1.0.0'' = 1"
  by (simp add: compare_versions_def tag_or_def demo_defs semver_defs Let_def)

theorem version_written_only_after_swap_witness:
  "trace demo_world = [] \<and>
   fst (run_update demo_config demo_env demo_world) = Inr True \<and>
   is_write (trace (snd (run_update demo_config demo_env demo_world)) ! 16) \<and>
   swap_done (final_stage demo_env) (app_dir demo_config)
     (take 16 (trace (snd (run_update demo_config demo_env demo_world)))) \<and>
   \<not> swap_done (final_stage demo_env) (app_dir (demo_config\<lparr>dry_run := True\<rparr>))
     (trace (snd (run_update (demo_config\<lparr>dry_run := True\<rparr>) demo_env demo_world))) \<and>
   vfile (snd (run_update (demo_config\<lparr>dry_run := True\<rparr>) demo_env demo_world))
     = vfile demo_world"
proof -
  let ?t = "trace (snd (run_update demo_config demo_env demo_world))"
  have t: "trace demo_world = []" by (simp add: demo_world_def)
  have r1: "run_update demo_config demo_env demo_world =
      (fst (run_update demo_config demo_env demo_world),
       snd (run_update demo_config demo_env demo_world))" by simp
  have r2: "run_update (demo_config\<lparr>dry_run := True\<rparr>) demo_env demo_world =
      (fst (run_update (demo_config\<lparr>dry_run := True\<rparr>) demo_env demo_world),
       snd (run_update (demo_config\<lparr>dry_run := True\<rparr>) demo_env demo_world))" by simp
  have ok: "fst (run_update demo_config demo_env demo_world) = Inr True"
    by (simp add: demo_run)
  have len: "16 < length ?t" by (simp add: demo_run)
  then have split: "?t = take 16 ?t @ (?t ! 16) # drop (Suc 16) ?t"
    by (rule id_take_nth_drop)
  have wr: "is_write (?t ! 16)" by (simp add: demo_run)
  have nd: "\<not> swap_done (final_stage demo_env) (app_dir (demo_config\<lparr>dry_run := True\<rparr>))
     (trace (snd (run_update (demo_config\<lparr>dry_run := True\<rparr>) demo_env demo_world)))"
    by (simp add: dry_run_eval swap_done_def)
  from version_written_only_after_swap [OF t r1] split wr
  have "swap_done (final_stage demo_env) (app_dir demo_config) (take 16 ?t)" by blast
  moreover from version_written_only_after_swap [OF t r2] nd
  have "vfile (snd (run_update (demo_config\<lparr>dry_run := True\<rparr>) demo_env demo_world))
     = vfile demo_world" by blast
  ultimately show ?thesis using t ok wr nd by blast
qed

text \<open>
  Claim C4 as stated fails: with a candidate release that is newer than the local version,
  a dry run returns without installing and without downloading, although none of the
  three skip conditions holds.
\<close>

theorem dry_run_skips_download_counterexample:
  "get_latest_release (api_releases demo_env) (include_prereleases (demo_config\<lparr>dry_run := True\<rparr>))
     = Some demo_release \<and>
   get_version (load_vdata (vfile demo_world)) = Inr (JStr ''1.0.0'') \<and>
   compare_versions (tag_or demo_release ''0.0.0'') ''1.0.0'' = 1 \<and>
   fst (run_update (demo_config\<lparr>dry_run := True\<rparr>) demo_env demo_world) = Inr False \<and>
   \<not> downloads (trace (snd (run_update (demo_config\<lparr>dry_run := True\<rparr>) demo_env demo_world)))"
proof -
  have "get_version (load_vdata (vfile demo_world)) = Inr (JStr ''1.0.0'')"
    by (simp add: load_vdata_def get_version_def demo_world_def)
  moreover have "get_latest_release (api_releases demo_env)
      (include_prereleases (demo_config\<lparr>dry_run := True\<rparr>)) = Some demo_release"
    using demo_select by (simp add: demo_config_def)
  ultimately show ?thesis
    by (simp add: demo_compare dry_run_eval downloads_def)
qed

theorem skip_exactly_at_evaluation_witness:
  "trace demo_world = [] \<and>
   fault demo_env 2 HttpGetJson = None \<and> fault demo_env 4 Mkdtemp = None \<and>
   get_version (load_vdata (vfile demo_world)) = Inr (JStr ''1.0.0'') \<and>
   \<not> skipped (trace (snd (run_update demo_config demo_env demo_world))) \<and>
   downloads (trace (snd (run_update demo_config demo_env demo_world))) \<and>
   Did (HttpDownload ''https://example.org/demo.zip'' ''/tmp/upd-1/demo-linux-x64.zip'')
     None \<in> set (trace (snd (run_update demo_config demo_env demo_world))) \<and>
   skipped (trace (snd (run_update demo_config demo_env
      (demo_world\<lparr>vfile := Some (JObj [(''version'', JStr ''1.2.0'')])\<rparr>)))) \<and>
   fst (run_update demo_config demo_env
      (demo_world\<lparr>vfile := Some (JObj [(''version'', JStr ''1.2.0'')])\<rparr>)) = Inr False"
proof -
  let ?w2 = "demo_world\<lparr>vfile := Some (JObj [(''version'', JStr ''1.2.0'')])\<rparr>"
  have t: "trace demo_world = []" by (simp add: demo_world_def)
  have t2: "trace ?w2 = []" by (simp add: demo_world_def)
  have r1: "run_update demo_config demo_env demo_world =
      (fst (run_update demo_config demo_env demo_world),
       snd (run_update demo_config demo_env demo_world))" by simp
  have r2: "run_update demo_config demo_env ?w2 =
      (fst (run_update demo_config demo_env ?w2), snd (run_update demo_config demo_env ?w2))"
    by simp
  have a: "fault demo_env 2 HttpGetJson = None" by (simp add: demo_env_def)
  have m: "fault demo_env 4 Mkdtemp = None" by (simp add: demo_env_def)
  have g1: "get_version (load_vdata (vfile demo_world)) = Inr (JStr ''1.0.0'')"
    by (simp add: load_vdata_def get_version_def demo_world_def)
  have g2: "get_version (load_vdata (vfile ?w2)) = Inr (JStr ''1.2.0'')"
    by (simp add: load_vdata_def get_version_def demo_world_def)
  have c2: "compare_versions (tag_or demo_release ''0.0.0'') ''1.2.0'' = 0"
    by (simp add: compare_versions_def tag_or_def demo_defs semver_defs Let_def)
  have f: "find_asset (assets demo_release) (asset_name demo_config) = Some demo_asset"
    "\<not> dry_run demo_config"
    by (simp_all add: demo_defs)
  have u: "browser_download_url demo_asset = ''https://example.org/demo.zip''"
    "zip_path demo_config demo_env = ''/tmp/upd-1/demo-linux-x64.zip''"
    "fault demo_env 6 (HttpDownload ''https://example.org/demo.zip''
        ''/tmp/upd-1/demo-linux-x64.zip'') = None"
    by (simp_all add: demo_defs zip_path_def path_join_def)
  note one = skip_exactly_at_evaluation [OF t r1 a g1]
  from one demo_select demo_compare m f
  have ns: "\<not> skipped (trace (snd (run_update demo_config demo_env demo_world)))"
    and "downloads (trace (snd (run_update demo_config demo_env demo_world)))"
    by simp_all
  moreover from one ns demo_select f m
  have "Did (HttpDownload (browser_download_url demo_asset) (zip_path demo_config demo_env))
          (fault demo_env 6 (HttpDownload (browser_download_url demo_asset)
             (zip_path demo_config demo_env)))
        \<in> set (trace (snd (run_update demo_config demo_env demo_world)))"
    by blast
  then have "Did (HttpDownload ''https://example.org/demo.zip''
          ''/tmp/upd-1/demo-linux-x64.zip'') None
        \<in> set (trace (snd (run_update demo_config demo_env demo_world)))"
    by (simp only: u)
  moreover from skip_exactly_at_evaluation [OF t2 r2 a g2] demo_select c2
  have "skipped (trace (snd (run_update demo_config demo_env ?w2)))"
    and "fst (run_update demo_config demo_env ?w2) = Inr False"
    by simp_all
  ultimately show ?thesis using t a m g1 by blast
qed



theorem update_merges_version_witness:
  "vfile demo_world = Some (JObj [(''version'', JStr ''1.0.0''), (''channel'', JStr ''stable'')]) \<and>
   fst (run_update demo_config demo_env demo_world) = Inr True \<and>
   map_of (dict_of (the (vfile (snd (run_update demo_config demo_env demo_world))))) ''version''
     = Some (JStr ''1.2.0'') \<and>
   map_of (dict_of (the (vfile (snd (run_update demo_config demo_env demo_world))))) ''channel''
     = Some (JStr ''stable'')"
proof -
  have v: "vfile demo_world =
      Some (JObj [(''version'', JStr ''1.0.0''), (''channel'', JStr ''stable'')])"
    by (simp add: demo_world_def)
  have r: "run_update demo_config demo_env demo_world =
      (Inr True, snd (run_update demo_config demo_env demo_world))"
    by (simp add: demo_run)
  have f: "fst (run_update demo_config demo_env demo_world) = Inr True"
    by (simp add: demo_run)
  have tg: "lstrip_v (tag_or demo_release ''0.0.0'') = ''1.2.0''"
    by (simp add: lstrip_v_def tag_or_def demo_defs)
  from update_merges_version [OF v r] obtain rel kvs' where
    "get_latest_release (api_releases demo_env) (include_prereleases demo_config) = Some rel"
    and k: "vfile (snd (run_update demo_config demo_env demo_world)) = Some (JObj kvs')"
    and ver: "map_of kvs' ''version'' = Some (JStr (lstrip_v (tag_or rel ''0.0.0'')))"
    and rest: "\<forall>k. k \<noteq> ''version'' \<longrightarrow>
         map_of kvs' k =
         map_of [(''version'', JStr ''1.0.0''), (''channel'', JStr ''stable'')] k"
    by blast
  with demo_select have "rel = demo_release" by simp
  with ver tg have "map_of kvs' ''version'' = Some (JStr ''1.2.0'')" by simp
  moreover from rest have "map_of kvs' ''channel'' = Some (JStr ''stable'')" by simp
  ultimately show ?thesis using v f k by simp
qed


end
